theory Spec2Isabelle
  imports Main "HOL-Library.Word"
begin

unbundle bit_operations_syntax

section \<open>The neighbour cache of net/core/neighbour.c\<close>

text \<open>
  The embedding follows the C source function by function. An \<open>unsigned long\<close> (jiffies
  and the time stamps of an entry) is a 32-bit word, as on the ILP32 targets of this tree;
  a \<open>__u8\<close> is an 8-bit word. Values of C type \<open>int\<close> (parameters of a
  \<open>neigh_parms\<close> block, counters, return codes) are read as integers, and their
  conversion to an unsigned type is written out with \<open>word_of_int\<close> where the source
  mixes the two. A chain of \<open>next\<close> pointers is the list of its members in chain order,
  a packet queue is the list of its packets, oldest first.
\<close>

type_synonym u8 = "8 word"
type_synonym u32 = "32 word"
type_synonym ulong = "32 word"

subsection \<open>Constants and macros of the headers\<close>

named_theorems nud_defs "values of the NUD state bits and masks"

text \<open>Modelled from the spec: state \<open>NONE\<close> of section 4.2; include/net/neighbour.h,
  which gives the value, is not among the sources.\<close>
definition NUD_NONE :: u8 where [nud_defs]: "NUD_NONE = 0x00"

text \<open>Modelled from the spec: state \<open>INCOMPLETE\<close> of section 4.2, one bit of the state
  byte as in include/net/neighbour.h (not among the sources).\<close>
definition NUD_INCOMPLETE :: u8 where [nud_defs]: "NUD_INCOMPLETE = 0x01"

text \<open>Modelled from the spec: state \<open>REACHABLE\<close> of section 4.2, one bit of the state
  byte as in include/net/neighbour.h (not among the sources).\<close>
definition NUD_REACHABLE :: u8 where [nud_defs]: "NUD_REACHABLE = 0x02"

text \<open>Modelled from the spec: state \<open>STALE\<close> of section 4.2, one bit of the state
  byte as in include/net/neighbour.h (not among the sources).\<close>
definition NUD_STALE :: u8 where [nud_defs]: "NUD_STALE = 0x04"

text \<open>Modelled from the spec: state \<open>DELAY\<close> of section 4.2, one bit of the state
  byte as in include/net/neighbour.h (not among the sources).\<close>
definition NUD_DELAY :: u8 where [nud_defs]: "NUD_DELAY = 0x08"

text \<open>Modelled from the spec: state \<open>PROBE\<close> of section 4.2, one bit of the state
  byte as in include/net/neighbour.h (not among the sources).\<close>
definition NUD_PROBE :: u8 where [nud_defs]: "NUD_PROBE = 0x10"

text \<open>Modelled from the spec: state \<open>FAILED\<close> of section 4.2, one bit of the state
  byte as in include/net/neighbour.h (not among the sources).\<close>
definition NUD_FAILED :: u8 where [nud_defs]: "NUD_FAILED = 0x20"

text \<open>Modelled from the spec: administrative state \<open>NOARP\<close> of section 4.2, one bit of
  the state byte as in include/net/neighbour.h (not among the sources).\<close>
definition NUD_NOARP :: u8 where [nud_defs]: "NUD_NOARP = 0x40"

text \<open>Modelled from the spec: administrative state \<open>PERMANENT\<close> of section 4.2, one bit
  of the state byte as in include/net/neighbour.h (not among the sources).\<close>
definition NUD_PERMANENT :: u8 where [nud_defs]: "NUD_PERMANENT = 0x80"

text \<open>Modelled from the spec: the states whose transitions the per-entry timer drives
  (section 4.2: \<open>REACHABLE\<close>, \<open>DELAY\<close>, \<open>INCOMPLETE\<close> and \<open>PROBE\<close> are the ones
  \<open>neigh_timer_handler\<close> re-evaluates); the macro is in include/net/neighbour.h.\<close>
definition NUD_IN_TIMER :: u8 where
  "NUD_IN_TIMER = NUD_INCOMPLETE OR NUD_REACHABLE OR NUD_DELAY OR NUD_PROBE"

text \<open>Modelled from the spec: the "valid" states of section 4.2, those in which a
  link-layer address is known; the macro is in include/net/neighbour.h.\<close>
definition NUD_VALID :: u8 where
  "NUD_VALID = NUD_PERMANENT OR NUD_NOARP OR NUD_REACHABLE OR NUD_PROBE OR NUD_STALE OR NUD_DELAY"

text \<open>Modelled from the spec: the "connected" states of section 4.2, those with the fast
  path installed; the macro is in include/net/neighbour.h.\<close>
definition NUD_CONNECTED :: u8 where
  "NUD_CONNECTED = NUD_PERMANENT OR NUD_NOARP OR NUD_REACHABLE"

text \<open>Modelled from the spec: "fixed-size bucket array, power-of-two mask" (section 3);
  the value is that of include/net/neighbour.h.\<close>
definition NEIGH_HASHMASK :: u32 where "NEIGH_HASHMASK = 0x1F"

text \<open>Modelled from the spec: the mask of the parallel proxy table (section 3); the
  value is that of include/net/neighbour.h.\<close>
definition PNEIGH_HASHMASK :: u32 where "PNEIGH_HASHMASK = 0xF"

text \<open>Modelled from the spec: the update flags of section 4.2 (\<open>OVERRIDE\<close>,
  \<open>WEAK_OVERRIDE\<close>, the router flags and \<open>ADMIN\<close>), bits of the \<open>flags\<close>
  argument as in include/net/neighbour.h.\<close>
definition NEIGH_UPDATE_F_OVERRIDE :: u32 where "NEIGH_UPDATE_F_OVERRIDE = 0x00000001"

text \<open>Modelled from the spec: see \<open>NEIGH_UPDATE_F_OVERRIDE\<close>.\<close>
definition NEIGH_UPDATE_F_WEAK_OVERRIDE :: u32 where "NEIGH_UPDATE_F_WEAK_OVERRIDE = 0x00000002"

text \<open>Modelled from the spec: see \<open>NEIGH_UPDATE_F_OVERRIDE\<close>.\<close>
definition NEIGH_UPDATE_F_OVERRIDE_ISROUTER :: u32 where
  "NEIGH_UPDATE_F_OVERRIDE_ISROUTER = 0x00000004"

text \<open>Modelled from the spec: see \<open>NEIGH_UPDATE_F_OVERRIDE\<close>.\<close>
definition NEIGH_UPDATE_F_ISROUTER :: u32 where "NEIGH_UPDATE_F_ISROUTER = 0x40000000"

text \<open>Modelled from the spec: see \<open>NEIGH_UPDATE_F_OVERRIDE\<close>.\<close>
definition NEIGH_UPDATE_F_ADMIN :: u32 where "NEIGH_UPDATE_F_ADMIN = 0x80000000"

text \<open>Modelled from the spec: the "is-router" flag of an entry (section 3); the value is
  that of include/linux/rtnetlink.h.\<close>
definition NTF_ROUTER :: u8 where "NTF_ROUTER = 0x80"

text \<open>Modelled from the spec: the wrap-safe comparison of two jiffies values the timing
  rules of sections 4.2 and 4.4 rest on; the macro \<open>time_after(a,b)\<close> of
  include/linux/jiffies.h is \<open>((long)(b) - (long)(a) < 0)\<close>.\<close>
definition time_after :: "ulong \<Rightarrow> ulong \<Rightarrow> bool" where
  "time_after a b = (sint (b - a) < 0)"

text \<open>Modelled from the spec: see \<open>time_after\<close>; \<open>time_before(a,b)\<close> is
  \<open>time_after(b,a)\<close>.\<close>
definition time_before :: "ulong \<Rightarrow> ulong \<Rightarrow> bool" where
  "time_before a b = time_after b a"

text \<open>Modelled from the spec: see \<open>time_after\<close>; \<open>time_after_eq(a,b)\<close> is
  \<open>((long)(a) - (long)(b) >= 0)\<close>.\<close>
definition time_after_eq :: "ulong \<Rightarrow> ulong \<Rightarrow> bool" where
  "time_after_eq a b = (0 \<le> sint (a - b))"

text \<open>Modelled from the spec: see \<open>time_after\<close>; \<open>time_before_eq(a,b)\<close> is
  \<open>time_after_eq(b,a)\<close>.\<close>
definition time_before_eq :: "ulong \<Rightarrow> ulong \<Rightarrow> bool" where
  "time_before_eq a b = time_after_eq b a"

text \<open>Modelled from the spec: error codes "surface as a null return or negative error
  code" (section 7); the numbers are those of include/asm-generic/errno-base.h.\<close>
definition EPERM :: int where "EPERM = 1"

text \<open>Modelled from the spec: see \<open>EPERM\<close>.\<close>
definition EINVAL :: int where "EINVAL = 22"


subsection \<open>Data\<close>

text \<open>A packet: a tag that identifies it and \<open>skb->dst->neighbour\<close>, the address of
  the entry its route points at (\<open>None\<close> when \<open>skb->dst\<close> or that field is null).\<close>

record sk_buff =
  skb_tag :: nat
  skb_dst_neighbour :: "nat option"

text \<open>The functions an output pointer of an entry or of a cached header can hold.\<close>

datatype out_fn = Neigh_blackhole | Ops_output | Ops_connected_output | Ops_hh_output

record hh_cache =
  hh_type :: "16 word"
  hh_refcnt :: int
  hh_output :: out_fn

text \<open>\<open>struct neigh_parms\<close>; its field \<open>dead\<close> is \<open>parms_dead\<close> here.\<close>

record neigh_parms =
  base_reachable_time :: int
  retrans_time :: int
  gc_staletime :: int
  reachable_time :: int
  delay_probe_time :: int
  queue_len :: int
  ucast_probes :: int
  app_probes :: int
  mcast_probes :: int
  parms_dead :: bool

text \<open>\<open>struct neighbour\<close>. \<open>dev\<close> and \<open>parms\<close> are addresses; the timer is its
  pending bit and its expiry time.\<close>

record neighbour =
  dev :: nat
  parms :: nat
  primary_key :: "u8 list"
  ha :: "u8 list"
  nud_state :: u8
  flags :: u8
  refcnt :: int
  dead :: bool
  used :: ulong
  confirmed :: ulong
  updated :: ulong
  probes :: int
  arp_queue :: "sk_buff list"
  "output" :: out_fn
  hh :: "hh_cache list"
  timer_pending :: bool
  timer_expires :: ulong

text \<open>What a function does to the world outside the entry, in the order it does it.
  \<open>Ev_output a skb\<close> is the call \<open>n1->output(skb)\<close>, \<open>a\<close> the address of \<open>n1\<close>
  when the packet names one and \<open>None\<close> when \<open>n1\<close> is the entry itself.\<close>

datatype event =
    Ev_kfree_skb sk_buff
  | Ev_error_report sk_buff
  | Ev_output "nat option" sk_buff
  | Ev_solicit "sk_buff option"
  | Ev_dev_put nat
  | Ev_parms_put nat
  | Ev_destructor
  | Ev_kmem_cache_free
  | Ev_res_failed
  | Ev_warning

text \<open>Where the code leaves defined behaviour.\<close>

datatype fault = Unlink_queue_head

subsection \<open>References, timers and destruction\<close>

text \<open>Modelled from the spec: "callers hold references while using the entry"
  (section 3); \<open>neigh_hold\<close> of include/net/neighbour.h is \<open>atomic_inc(&n->refcnt)\<close>.\<close>
definition neigh_hold :: "neighbour \<Rightarrow> neighbour" where
  "neigh_hold n = n\<lparr>refcnt := refcnt n + 1\<rparr>"

text \<open>Modelled from the spec: the per-entry timer "for state-transition scheduling"
  (section 3); \<open>add_timer\<close> of the timer core arms it for the given expiry time.\<close>
definition add_timer :: "ulong \<Rightarrow> neighbour \<Rightarrow> neighbour" where
  "add_timer expires n = n\<lparr>timer_expires := expires, timer_pending := True\<rparr>"

text \<open>Modelled from the spec: "purge the pending packet queue" (section 4.1);
  \<open>skb_queue_purge\<close> of the socket-buffer layer frees every packet of the queue, oldest
  first. The caller empties the queue field.\<close>
definition skb_queue_purge :: "sk_buff list \<Rightarrow> event list" where
  "skb_queue_purge q = map Ev_kfree_skb q"

text \<open>Lines 486-508 of \<open>neigh_destroy\<close>: the cached headers are detached (their output
  redirected to the blackhole, which the entry no longer sees), the protocol destructor is
  called if there is one, the queue is purged, the device and the parameter block are
  released and the entry is freed. \<open>Ev_kmem_cache_free\<close> stands for the last three
  statements, \<open>neigh_glbl_allocs--\<close>, \<open>tbl->entries--\<close> and \<open>kmem_cache_free\<close>.\<close>

definition neigh_destroy_tail :: "neighbour \<Rightarrow> neighbour \<times> event list" where
  "neigh_destroy_tail neigh =
     (neigh\<lparr>hh := [], arp_queue := []\<rparr>,
      Ev_destructor # skb_queue_purge (arp_queue neigh)
        @ [Ev_dev_put (dev neigh), Ev_parms_put (parms neigh), Ev_kmem_cache_free])"

text \<open>\<open>neigh_release\<close> as \<open>neigh_del_timer\<close> calls it, right after \<open>del_timer\<close> has
  taken the timer off: the \<open>neigh_del_timer\<close> inside a \<open>neigh_destroy\<close> it may lead to
  finds no pending timer and returns 0. Lemma \<open>neigh_release_idle\<close> below shows that
  this is \<open>neigh_release\<close> on such an entry.\<close>

definition neigh_release_no_timer :: "neighbour \<Rightarrow> neighbour \<times> event list" where
  "neigh_release_no_timer n =
     (let n1 = n\<lparr>refcnt := refcnt n - 1\<rparr> in
      if refcnt n1 = 0 then
        (if \<not> dead n1 then (n1, [Ev_warning]) else neigh_destroy_tail n1)
      else (n1, []))"

definition neigh_del_timer :: "neighbour \<Rightarrow> int \<times> neighbour \<times> event list" where
  "neigh_del_timer n =
     (if nud_state n AND NUD_IN_TIMER \<noteq> 0 \<and> timer_pending n then
        (let (n1, ev) = neigh_release_no_timer (n\<lparr>timer_pending := False\<rparr>) in (1, n1, ev))
      else (0, n, []))"

definition neigh_destroy :: "neighbour \<Rightarrow> neighbour \<times> event list" where
  "neigh_destroy neigh =
     (if \<not> dead neigh then (neigh, [Ev_warning])
      else
        (let (r, n1, ev1) = neigh_del_timer neigh;
             (n2, ev2) = neigh_destroy_tail n1
         in (n2, ev1 @ (if r \<noteq> 0 then [Ev_warning] else []) @ ev2)))"

text \<open>Modelled from the spec: "destroyed only when unlinked and refcount drops to zero"
  (section 3); \<open>neigh_release\<close> of include/net/neighbour.h is
  \<open>if (atomic_dec_and_test(&neigh->refcnt)) neigh_destroy(neigh)\<close>.\<close>
definition neigh_release :: "neighbour \<Rightarrow> neighbour \<times> event list" where
  "neigh_release neigh =
     (let n1 = neigh\<lparr>refcnt := refcnt neigh - 1\<rparr> in
      if refcnt n1 = 0 then neigh_destroy n1 else (n1, []))"

subsection \<open>Fast path on and off\<close>

definition neigh_suspect :: "neighbour \<Rightarrow> neighbour" where
  "neigh_suspect neigh =
     neigh\<lparr>output := Ops_output, hh := map (\<lambda>h. h\<lparr>hh_output := Ops_output\<rparr>) (hh neigh)\<rparr>"

definition neigh_connect :: "neighbour \<Rightarrow> neighbour" where
  "neigh_connect neigh =
     neigh\<lparr>output := Ops_connected_output,
           hh := map (\<lambda>h. h\<lparr>hh_output := Ops_hh_output\<rparr>) (hh neigh)\<rparr>"

subsection \<open>The per-entry timer: \<open>neigh_timer_handler\<close>\<close>

text \<open>The sum of two C \<open>int\<close>s as the compiled code computes it: it wraps at 32 bits.\<close>

definition c_int_add :: "int \<Rightarrow> int \<Rightarrow> int" where
  "c_int_add a b = sint (word_of_int a + word_of_int b :: 32 word)"

definition neigh_max_probes :: "neigh_parms \<Rightarrow> neighbour \<Rightarrow> int" where
  "neigh_max_probes p n =
     (if nud_state n AND NUD_PROBE \<noteq> 0 then ucast_probes p
      else c_int_add (c_int_add (ucast_probes p) (app_probes p)) (mcast_probes p))"

text \<open>Lines 635-667: the transition on the state read at entry, and the next expiry time.
  \<open>HZ\<close>, the tick rate of the architecture, is a parameter.\<close>

definition neigh_timer_transition ::
  "int \<Rightarrow> neigh_parms \<Rightarrow> ulong \<Rightarrow> neighbour \<Rightarrow> neighbour \<times> ulong" where
  "neigh_timer_transition HZ p now neigh =
     (let state = nud_state neigh in
      if state AND NUD_REACHABLE \<noteq> 0 then
        (if time_before_eq now (confirmed neigh + word_of_int (reachable_time p)) then
           (neigh, confirmed neigh + word_of_int (reachable_time p))
         else if time_before_eq now (used neigh + word_of_int (delay_probe_time p)) then
           (neigh_suspect (neigh\<lparr>nud_state := NUD_DELAY\<rparr>),
            now + word_of_int (delay_probe_time p))
         else (neigh_suspect (neigh\<lparr>nud_state := NUD_STALE\<rparr>), now + word_of_int HZ))
      else if state AND NUD_DELAY \<noteq> 0 then
        (if time_before_eq now (confirmed neigh + word_of_int (delay_probe_time p)) then
           (neigh_connect (neigh\<lparr>nud_state := NUD_REACHABLE\<rparr>),
            confirmed neigh + word_of_int (reachable_time p))
         else (neigh\<lparr>nud_state := NUD_PROBE, probes := 0\<rparr>,
               now + word_of_int (retrans_time p)))
      else (neigh, now + word_of_int (retrans_time p)))"

text \<open>Lines 683-688: the loop that hands the queued packets to \<open>error_report\<close>. The
  callback runs with the entry unlocked and "can hit the same neighbour entry": it is a
  function from the entry as the loop left it to the entry as the loop finds it again.
  A callback that keeps refilling the queue of a \<open>FAILED\<close> entry keeps the loop running:
  the result is \<open>None\<close> then.\<close>

partial_function (option) neigh_report_loop ::
  "(sk_buff \<Rightarrow> neighbour \<Rightarrow> neighbour) \<Rightarrow> neighbour \<Rightarrow> event list
     \<Rightarrow> (neighbour \<times> event list) option" where
  "neigh_report_loop error_report neigh tr =
     (if nud_state neigh = NUD_FAILED then
        (case arp_queue neigh of
           [] \<Rightarrow> Some (neigh, tr)
         | skb # rest \<Rightarrow>
             neigh_report_loop error_report
               (error_report skb (neigh\<lparr>arp_queue := rest\<rparr>)) (tr @ [Ev_error_report skb]))
      else Some (neigh, tr))"

text \<open>Lines 669-690: the probe budget is used up.\<close>

definition neigh_timer_fail ::
  "(sk_buff \<Rightarrow> neighbour \<Rightarrow> neighbour) \<Rightarrow> neigh_parms \<Rightarrow> neighbour
     \<Rightarrow> (neighbour \<times> event list) option" where
  "neigh_timer_fail error_report p neigh =
     (if nud_state neigh AND (NUD_INCOMPLETE OR NUD_PROBE) \<noteq> 0
         \<and> neigh_max_probes p neigh \<le> probes neigh then
        (case neigh_report_loop error_report (neigh\<lparr>nud_state := NUD_FAILED\<rparr>) [Ev_res_failed] of
           None \<Rightarrow> None
         | Some (n1, tr) \<Rightarrow> Some (n1\<lparr>arp_queue := []\<rparr>, tr @ skb_queue_purge (arp_queue n1)))
      else Some (neigh, []))"

text \<open>Lines 692-706: the timer is armed again and a probe is sent. \<open>solicit\<close> sends a
  request for the packet at the head of the queue and does not change the entry.\<close>

definition neigh_timer_rearm ::
  "int \<Rightarrow> ulong \<Rightarrow> ulong \<Rightarrow> neighbour \<Rightarrow> neighbour \<times> event list" where
  "neigh_timer_rearm HZ jiffies next neigh =
     (let n1 = (if nud_state neigh AND NUD_IN_TIMER \<noteq> 0 then
                  add_timer
                    (if time_before next (jiffies + word_of_int (HZ div 2))
                     then jiffies + word_of_int (HZ div 2) else next)
                    (neigh_hold neigh)
                else neigh)
      in if nud_state n1 AND (NUD_INCOMPLETE OR NUD_PROBE) \<noteq> 0 then
           (n1\<lparr>probes := probes n1 + 1\<rparr>,
            [Ev_solicit (case arp_queue n1 of [] \<Rightarrow> None | skb # _ \<Rightarrow> Some skb)])
         else (n1, []))"

text \<open>The handler. The timer that fired is no longer pending; the reference it held is
  dropped at the end. \<open>jiffies\<close> is read once. The notification of the ARP daemon
  (\<open>CONFIG_ARPD\<close>) is not part of the model.\<close>

definition neigh_timer_handler ::
  "int \<Rightarrow> (sk_buff \<Rightarrow> neighbour \<Rightarrow> neighbour) \<Rightarrow> neigh_parms \<Rightarrow> ulong \<Rightarrow> neighbour
     \<Rightarrow> (neighbour \<times> event list) option" where
  "neigh_timer_handler HZ error_report p jiffies arg =
     (let neigh = arg\<lparr>timer_pending := False\<rparr> in
      if nud_state neigh AND NUD_IN_TIMER = 0 then
        (let (n4, ev4) = neigh_release neigh in Some (n4, Ev_warning # ev4))
      else
        (let (n1, next) = neigh_timer_transition HZ p jiffies neigh in
         case neigh_timer_fail error_report p n1 of
           None \<Rightarrow> None
         | Some (n2, ev2) \<Rightarrow>
             (let (n3, ev3) = neigh_timer_rearm HZ jiffies next n2;
                  (n4, ev4) = neigh_release n3
              in Some (n4, ev2 @ ev3 @ ev4))))"

subsection \<open>The update from the protocol: \<open>neigh_update\<close>\<close>

text \<open>Lines 840-861: the proposed address against the cached one. The argument
  \<open>lladdr\<close> is \<open>None\<close> for a null pointer and \<open>Some b\<close> for a buffer of the caller, of
  at least \<open>dev->addr_len\<close> bytes and other than \<open>neigh->ha\<close>. The result is
  \<open>Inl err\<close> where the code leaves through \<open>out\<close>, \<open>Inr None\<close> where it goes on with
  \<open>lladdr == neigh->ha\<close>, and \<open>Inr (Some b)\<close> where it goes on with the buffer.\<close>

definition neigh_update_lladdr ::
  "nat \<Rightarrow> neighbour \<Rightarrow> u8 \<Rightarrow> u8 list option \<Rightarrow> int + u8 list option" where
  "neigh_update_lladdr addr_len neigh old lladdr =
     (if addr_len = 0 then Inr None
      else
        (case lladdr of
           Some b \<Rightarrow>
             if old AND NUD_VALID \<noteq> 0 \<and> take addr_len b = take addr_len (ha neigh)
             then Inr None else Inr (Some b)
         | None \<Rightarrow> if old AND NUD_VALID = 0 then Inl (- EINVAL) else Inr None))"

text \<open>Label \<open>out\<close>, lines 936-940.\<close>

definition neigh_update_out :: "u32 \<Rightarrow> bool \<Rightarrow> neighbour \<Rightarrow> neighbour" where
  "neigh_update_out fl update_isrouter neigh =
     (if update_isrouter then
        neigh\<lparr>flags := (if fl AND NEIGH_UPDATE_F_ISROUTER \<noteq> 0 then flags neigh OR NTF_ROUTER
                         else flags neigh AND NOT NTF_ROUTER)\<rparr>
      else neigh)"

text \<open>Lines 923-932: the loop that sends the queued packets. \<open>n1->output(skb)\<close> runs with
  the entry unlocked; like \<open>error_report\<close> it is a function on the entry, given the
  address of \<open>n1\<close> that the packet names (\<open>None\<close>: the entry itself).\<close>

partial_function (option) neigh_xmit_loop ::
  "(nat option \<Rightarrow> sk_buff \<Rightarrow> neighbour \<Rightarrow> neighbour) \<Rightarrow> neighbour \<Rightarrow> event list
     \<Rightarrow> (neighbour \<times> event list) option" where
  "neigh_xmit_loop out neigh tr =
     (if nud_state neigh AND NUD_VALID \<noteq> 0 then
        (case arp_queue neigh of
           [] \<Rightarrow> Some (neigh, tr)
         | skb # rest \<Rightarrow>
             neigh_xmit_loop out
               (out (skb_dst_neighbour skb) skb (neigh\<lparr>arp_queue := rest\<rparr>))
               (tr @ [Ev_output (skb_dst_neighbour skb) skb]))
      else Some (neigh, tr))"

text \<open>Lines 890-900: the state changes; a pending timer is taken off and, for a state
  the timer drives, armed again.\<close>

definition neigh_update_state ::
  "neigh_parms \<Rightarrow> ulong \<Rightarrow> neighbour \<Rightarrow> u8 \<Rightarrow> u8 \<Rightarrow> neighbour \<times> event list" where
  "neigh_update_state p jiffies neigh new old =
     (if new \<noteq> old then
        (let (r, a, ev) = neigh_del_timer neigh;
             b = (if new AND NUD_IN_TIMER \<noteq> 0 then
                    add_timer
                      (jiffies + (if new AND NUD_REACHABLE \<noteq> 0
                                  then word_of_int (reachable_time p) else 0))
                      (neigh_hold a)
                  else a)
         in (b\<lparr>nud_state := new\<rparr>, ev))
      else (neigh, []))"

text \<open>Lines 902-911: an address other than the cached one is copied in.
  \<open>neigh_update_hhs\<close> rewrites the header bytes of the cached headers, which the record
  does not carry.\<close>

definition neigh_update_ha ::
  "neigh_parms \<Rightarrow> nat \<Rightarrow> ulong \<Rightarrow> neighbour \<Rightarrow> u8 list option \<Rightarrow> u8 \<Rightarrow> neighbour" where
  "neigh_update_ha p addr_len jiffies neigh ll new =
     (case ll of
        None \<Rightarrow> neigh
      | Some b \<Rightarrow>
          neigh\<lparr>ha := take addr_len b @ drop addr_len (ha neigh),
                confirmed := (if new AND NUD_CONNECTED = 0
                              then jiffies - word_of_int (2 * base_reachable_time p)
                              else confirmed neigh)\<rparr>)"

text \<open>Lines 890-940, with \<open>lladdr\<close>, \<open>new\<close> and \<open>update_isrouter\<close> as lines 872-888
  left them.\<close>

definition neigh_update_commit ::
  "(nat option \<Rightarrow> sk_buff \<Rightarrow> neighbour \<Rightarrow> neighbour) \<Rightarrow> neigh_parms \<Rightarrow> nat \<Rightarrow> ulong \<Rightarrow> u32
     \<Rightarrow> neighbour \<Rightarrow> u8 list option \<Rightarrow> u8 \<Rightarrow> u8 \<Rightarrow> bool
     \<Rightarrow> (int \<times> neighbour \<times> event list) option" where
  "neigh_update_commit out p addr_len jiffies fl neigh ll new old update_isrouter =
     (let (n1, ev) = neigh_update_state p jiffies neigh new old;
          n2 = neigh_update_ha p addr_len jiffies n1 ll new
      in if new = old then Some (0, neigh_update_out fl update_isrouter n2, ev)
         else
           (let n3 = (if new AND NUD_CONNECTED \<noteq> 0 then neigh_connect n2
                      else neigh_suspect n2)
            in if old AND NUD_VALID = 0 then
                 (case neigh_xmit_loop out n3 [] of
                    None \<Rightarrow> None
                  | Some (n4, tr) \<Rightarrow>
                      Some (0, neigh_update_out fl update_isrouter (n4\<lparr>arp_queue := []\<rparr>),
                            ev @ tr @ skb_queue_purge (arp_queue n4)))
               else Some (0, neigh_update_out fl update_isrouter n3, ev)))"

text \<open>\<open>neigh_update\<close>: the return code, the entry and what was done. \<open>addr_len\<close> is
  \<open>dev->addr_len\<close> and \<open>p\<close> the block \<open>neigh->parms\<close> points at. \<open>None\<close>: the loop
  of lines 923-932 never ends.\<close>

definition neigh_update ::
  "(nat option \<Rightarrow> sk_buff \<Rightarrow> neighbour \<Rightarrow> neighbour) \<Rightarrow> neigh_parms \<Rightarrow> nat \<Rightarrow> ulong
     \<Rightarrow> neighbour \<Rightarrow> u8 list option \<Rightarrow> u8 \<Rightarrow> u32
     \<Rightarrow> (int \<times> neighbour \<times> event list) option" where
  "neigh_update out p addr_len jiffies neigh lladdr new fl =
     (let old = nud_state neigh in
      if fl AND NEIGH_UPDATE_F_ADMIN = 0 \<and> old AND (NUD_NOARP OR NUD_PERMANENT) \<noteq> 0 then
        Some (- EPERM, neigh, [])
      else if new AND NUD_VALID = 0 then
        (let (r, n1, ev) = neigh_del_timer neigh;
             n2 = (if old AND NUD_CONNECTED \<noteq> 0 then neigh_suspect n1 else n1)
         in Some (0, n2\<lparr>nud_state := new\<rparr>, ev))
      else
        (case neigh_update_lladdr addr_len neigh old lladdr of
           Inl err \<Rightarrow> Some (err, neigh, [])
         | Inr ll \<Rightarrow>
             (let n1 = (if new AND NUD_CONNECTED \<noteq> 0 then neigh\<lparr>confirmed := jiffies\<rparr>
                        else neigh)\<lparr>updated := jiffies\<rparr>;
                  update_isrouter = (fl AND NEIGH_UPDATE_F_OVERRIDE_ISROUTER \<noteq> 0)
              in if old AND NUD_VALID \<noteq> 0 then
                   (if ll \<noteq> None \<and> fl AND NEIGH_UPDATE_F_OVERRIDE = 0 then
                      (if fl AND NEIGH_UPDATE_F_WEAK_OVERRIDE \<noteq> 0 \<and> old AND NUD_CONNECTED \<noteq> 0
                       then neigh_update_commit out p addr_len jiffies fl n1 None NUD_STALE old
                              False
                       else Some (0, n1, []))
                    else if ll = None \<and> new = NUD_STALE
                            \<and> (fl AND NEIGH_UPDATE_F_WEAK_OVERRIDE \<noteq> 0
                                \<or> old AND NUD_CONNECTED \<noteq> 0)
                    then neigh_update_commit out p addr_len jiffies fl n1 ll old old
                           update_isrouter
                    else neigh_update_commit out p addr_len jiffies fl n1 ll new old
                           update_isrouter)
                 else neigh_update_commit out p addr_len jiffies fl n1 ll new old
                        update_isrouter)))"

subsection \<open>The send path: \<open>__neigh_event_send\<close>\<close>

text \<open>Lines 751-763: the packet joins the queue of an \<open>INCOMPLETE\<close> entry. The
  comparison of \<open>skb_queue_len\<close> (a \<open>__u32\<close>) with \<open>queue_len\<close> (an \<open>int\<close>) is
  unsigned. \<open>neigh->arp_queue.next\<close> is the oldest packet of a queue that has one; on an
  empty queue it is the list head itself, which the code then unlinks and frees as if it
  were a packet: \<open>Unlink_queue_head\<close>.\<close>

definition neigh_enqueue ::
  "neigh_parms \<Rightarrow> neighbour \<Rightarrow> sk_buff option \<Rightarrow> fault + (int \<times> neighbour \<times> event list)" where
  "neigh_enqueue p neigh skb =
     (if nud_state neigh = NUD_INCOMPLETE then
        (case skb of
           None \<Rightarrow> Inr (1, neigh, [])
         | Some s \<Rightarrow>
             if (word_of_int (queue_len p) :: u32) \<le> of_nat (length (arp_queue neigh)) then
               (case arp_queue neigh of
                  [] \<Rightarrow> Inl Unlink_queue_head
                | buff # rest \<Rightarrow>
                    Inr (1, neigh\<lparr>arp_queue := rest @ [s]\<rparr>, [Ev_kfree_skb buff]))
             else Inr (1, neigh\<lparr>arp_queue := arp_queue neigh @ [s]\<rparr>, []))
      else Inr (0, neigh, []))"

text \<open>\<open>__neigh_event_send\<close>, named \<open>uu_neigh_event_send\<close> here since a name cannot
  begin with an underscore: the return code, the entry and what was done, or the fault.
  \<open>p\<close> is the block \<open>neigh->parms\<close> points at, \<open>skb\<close> is \<open>None\<close> for a null
  pointer.\<close>

definition uu_neigh_event_send ::
  "neigh_parms \<Rightarrow> ulong \<Rightarrow> neighbour \<Rightarrow> sk_buff option
     \<Rightarrow> fault + (int \<times> neighbour \<times> event list)" where
  "uu_neigh_event_send p jiffies neigh skb =
     (if nud_state neigh AND (NUD_CONNECTED OR NUD_DELAY OR NUD_PROBE) \<noteq> 0 then
        Inr (0, neigh, [])
      else if nud_state neigh AND (NUD_STALE OR NUD_INCOMPLETE) = 0 then
        (if c_int_add (mcast_probes p) (app_probes p) \<noteq> 0 then
           neigh_enqueue p
             (add_timer (jiffies + 1)
                (neigh_hold (neigh\<lparr>probes := ucast_probes p, nud_state := NUD_INCOMPLETE\<rparr>)))
             skb
         else
           Inr (1, neigh\<lparr>nud_state := NUD_FAILED\<rparr>,
                (case skb of None \<Rightarrow> [] | Some s \<Rightarrow> [Ev_kfree_skb s])))
      else if nud_state neigh AND NUD_STALE \<noteq> 0 then
        neigh_enqueue p
          (add_timer (jiffies + word_of_int (delay_probe_time p))
             ((neigh_hold neigh)\<lparr>nud_state := NUD_DELAY\<rparr>))
          skb
      else neigh_enqueue p neigh skb)"

subsection \<open>The table\<close>

text \<open>\<open>struct pneigh_entry\<close>: the device (\<open>None\<close> for a null pointer) and the key.\<close>

record pneigh_entry =
  pn_dev :: "nat option"
  pn_key :: "u8 list"

text \<open>\<open>struct neigh_table\<close>, with the memory its pointers point into: \<open>neigh_at a\<close> is
  the entry at address \<open>a\<close> and \<open>parms_at a\<close> the parameter block at address \<open>a\<close>.
  A bucket of \<open>hash_buckets\<close> is the list of the addresses on its chain, a bucket of
  \<open>phash_buckets\<close> the list of the proxy entries on its chain. \<open>tbl_parms\<close> is the
  address of the block embedded in the table and \<open>parms_next\<close> the blocks chained after
  it. \<open>neigh_glbl_allocs\<close> is the counter of the file.\<close>

record neigh_table =
  key_len :: nat
  tbl_parms :: nat
  parms_next :: "nat list"
  gc_interval :: int
  gc_thresh1 :: int
  gc_thresh2 :: int
  gc_thresh3 :: int
  last_flush :: ulong
  last_rand :: ulong
  gc_timer_expires :: ulong
  entries :: int
  stats_allocs :: int
  neigh_glbl_allocs :: int
  hash_buckets :: "nat \<Rightarrow> nat list"
  phash_buckets :: "nat \<Rightarrow> pneigh_entry list"
  neigh_at :: "nat \<Rightarrow> neighbour"
  parms_at :: "nat \<Rightarrow> neigh_parms"

text \<open>The indices of the bucket array, and the addresses linked into it.\<close>

definition bucket_indices :: "nat list" where
  "bucket_indices = [0..<Suc (unat NEIGH_HASHMASK)]"

definition linked :: "neigh_table \<Rightarrow> nat list" where
  "linked t = concat (map (hash_buckets t) bucket_indices)"

text \<open>\<open>neigh_hold\<close> and \<open>neigh_release\<close> on the entry at an address. A release that
  frees the entry takes it off the two counters.\<close>

definition tbl_neigh_hold :: "nat \<Rightarrow> neigh_table \<Rightarrow> neigh_table" where
  "tbl_neigh_hold a t = t\<lparr>neigh_at := (neigh_at t)(a := neigh_hold (neigh_at t a))\<rparr>"

definition tbl_neigh_release :: "nat \<Rightarrow> neigh_table \<Rightarrow> neigh_table" where
  "tbl_neigh_release a t =
     (let (n, ev) = neigh_release (neigh_at t a);
          gone = (if Ev_kmem_cache_free \<in> set ev then 1 else 0)
      in t\<lparr>neigh_at := (neigh_at t)(a := n),
            entries := entries t - gone,
            neigh_glbl_allocs := neigh_glbl_allocs t - gone\<rparr>)"

subsection \<open>Forced collection: \<open>neigh_forced_gc\<close>\<close>

text \<open>Lines 121-146 on one chain: the chain that is left, the table, and whether an
  entry was discarded.\<close>

fun neigh_forced_gc_chain ::
  "ulong \<Rightarrow> nat list \<Rightarrow> neigh_table \<Rightarrow> nat list \<times> neigh_table \<times> bool" where
  "neigh_forced_gc_chain jiffies [] t = ([], t, False)"
| "neigh_forced_gc_chain jiffies (a # as) t =
     (let n = neigh_at t a in
      if refcnt n = 1 \<and> nud_state n AND NUD_PERMANENT = 0
         \<and> (nud_state n \<noteq> NUD_INCOMPLETE
             \<or> time_after jiffies (used n + word_of_int (retrans_time (parms_at t (parms n)))))
      then
        (let t1 = tbl_neigh_release a (t\<lparr>neigh_at := (neigh_at t)(a := n\<lparr>dead := True\<rparr>)\<rparr>);
             (ch, t2, s) = neigh_forced_gc_chain jiffies as t1
         in (ch, t2, True))
      else
        (let (ch, t2, s) = neigh_forced_gc_chain jiffies as t in (a # ch, t2, s)))"

fun neigh_forced_gc_buckets ::
  "ulong \<Rightarrow> nat list \<Rightarrow> neigh_table \<Rightarrow> neigh_table \<times> bool" where
  "neigh_forced_gc_buckets jiffies [] t = (t, False)"
| "neigh_forced_gc_buckets jiffies (i # is) t =
     (let (ch, t1, s1) = neigh_forced_gc_chain jiffies (hash_buckets t i) t;
          (t2, s2) = neigh_forced_gc_buckets jiffies is
                       (t1\<lparr>hash_buckets := (hash_buckets t1)(i := ch)\<rparr>)
      in (t2, s1 \<or> s2))"

definition neigh_forced_gc :: "ulong \<Rightarrow> neigh_table \<Rightarrow> int \<times> neigh_table" where
  "neigh_forced_gc jiffies t =
     (let (t1, shrunk) = neigh_forced_gc_buckets jiffies bucket_indices t
      in (if shrunk then 1 else 0, t1\<lparr>last_flush := jiffies\<rparr>))"

subsection \<open>The periodic sweep: \<open>neigh_periodic_timer\<close>\<close>

text \<open>\<open>neigh_rand_reach_time\<close>, given the value \<open>net_random()\<close> returns. The
  remainder by a zero \<open>base\<close> traps: \<open>None\<close>.\<close>

definition neigh_rand_reach_time :: "u32 \<Rightarrow> ulong \<Rightarrow> ulong option" where
  "neigh_rand_reach_time rnd base =
     (if base = 0 then None else Some (rnd mod base + drop_bit 1 base))"

text \<open>Lines 561-563: the reachable time of every block of the parameter list is drawn
  again; \<open>net_random k\<close> is the value the \<open>k\<close>-th call returns.\<close>

fun neigh_rand_parms ::
  "(nat \<Rightarrow> u32) \<Rightarrow> nat \<Rightarrow> nat list \<Rightarrow> (nat \<Rightarrow> neigh_parms) \<Rightarrow> (nat \<Rightarrow> neigh_parms) option" where
  "neigh_rand_parms net_random k [] pm = Some pm"
| "neigh_rand_parms net_random k (a # as) pm =
     (case neigh_rand_reach_time (net_random k) (word_of_int (base_reachable_time (pm a))) of
        None \<Rightarrow> None
      | Some r \<Rightarrow>
          neigh_rand_parms net_random (Suc k) as (pm(a := (pm a)\<lparr>reachable_time := sint r\<rparr>)))"

text \<open>Lines 570-597 on one chain.\<close>

fun neigh_periodic_chain :: "ulong \<Rightarrow> nat list \<Rightarrow> neigh_table \<Rightarrow> nat list \<times> neigh_table" where
  "neigh_periodic_chain now [] t = ([], t)"
| "neigh_periodic_chain now (a # as) t =
     (let n = neigh_at t a; state = nud_state n in
      if state AND (NUD_PERMANENT OR NUD_IN_TIMER) \<noteq> 0 then
        (let (ch, t2) = neigh_periodic_chain now as t in (a # ch, t2))
      else
        (let n1 = (if time_before (used n) (confirmed n) then n\<lparr>used := confirmed n\<rparr> else n) in
         if refcnt n1 = 1
            \<and> (state = NUD_FAILED
                \<or> time_after now (used n1 + word_of_int (gc_staletime (parms_at t (parms n1)))))
         then
           neigh_periodic_chain now as
             (tbl_neigh_release a (t\<lparr>neigh_at := (neigh_at t)(a := n1\<lparr>dead := True\<rparr>)\<rparr>))
         else
           (let (ch, t2) = neigh_periodic_chain now as (t\<lparr>neigh_at := (neigh_at t)(a := n1)\<rparr>)
            in (a # ch, t2))))"

fun neigh_periodic_buckets :: "ulong \<Rightarrow> nat list \<Rightarrow> neigh_table \<Rightarrow> neigh_table" where
  "neigh_periodic_buckets now [] t = t"
| "neigh_periodic_buckets now (i # is) t =
     (let (ch, t1) = neigh_periodic_chain now (hash_buckets t i) t
      in neigh_periodic_buckets now is (t1\<lparr>hash_buckets := (hash_buckets t1)(i := ch)\<rparr>))"

definition neigh_periodic_timer ::
  "int \<Rightarrow> (nat \<Rightarrow> u32) \<Rightarrow> ulong \<Rightarrow> neigh_table \<Rightarrow> neigh_table option" where
  "neigh_periodic_timer HZ net_random now t =
     (case (if time_after now (last_rand t + word_of_int (300 * HZ)) then
              map_option (\<lambda>pm. t\<lparr>last_rand := now, parms_at := pm\<rparr>)
                (neigh_rand_parms net_random 0 (tbl_parms t # parms_next t) (parms_at t))
            else Some t) of
        None \<Rightarrow> None
      | Some t1 \<Rightarrow>
          Some ((neigh_periodic_buckets now bucket_indices t1)
                  \<lparr>gc_timer_expires := now + word_of_int (gc_interval t1)\<rparr>))"

subsection \<open>Allocation and creation: \<open>neigh_alloc\<close>, \<open>neigh_create\<close>\<close>

text \<open>The entry \<open>neigh_alloc\<close> hands out: zeroed by \<open>memset\<close>, then lines 270-284.\<close>

definition neigh_fresh :: "neigh_table \<Rightarrow> ulong \<Rightarrow> neighbour" where
  "neigh_fresh t now =
     \<lparr>dev = 0, parms = tbl_parms t, primary_key = replicate (key_len t) 0,
      ha = replicate 8 0, nud_state = NUD_NONE, flags = 0, refcnt = 1, dead = True,
      used = now, confirmed = 0, updated = now, probes = 0, arp_queue = [],
      output = Neigh_blackhole, hh = [], timer_pending = False, timer_expires = 0\<rparr>"

text \<open>\<open>neigh_alloc\<close>. \<open>slab\<close> is what \<open>kmem_cache_alloc\<close> returns when it is called:
  an address, or \<open>None\<close> for a null pointer.\<close>

definition neigh_alloc ::
  "int \<Rightarrow> ulong \<Rightarrow> nat option \<Rightarrow> neigh_table \<Rightarrow> nat option \<times> neigh_table" where
  "neigh_alloc HZ jiffies slab t =
     (let now = jiffies;
          (stop, t1) =
            (if gc_thresh3 t < entries t
                \<or> (gc_thresh2 t < entries t
                    \<and> time_after now (last_flush t + word_of_int (5 * HZ)))
             then (let (shrunk, t1) = neigh_forced_gc jiffies t
                   in (shrunk = 0 \<and> gc_thresh3 t1 < entries t1, t1))
             else (False, t))
      in if stop then (None, t1)
         else
           (case slab of
              None \<Rightarrow> (None, t1)
            | Some a \<Rightarrow>
                (Some a,
                 t1\<lparr>neigh_at := (neigh_at t1)(a := neigh_fresh t1 now),
                     stats_allocs := stats_allocs t1 + 1,
                     neigh_glbl_allocs := neigh_glbl_allocs t1 + 1,
                     entries := entries t1 + 1\<rparr>)))"

text \<open>The bucket of a key and a device, and the test of lines 298 and 348.\<close>

definition neigh_hash_val :: "(u8 list \<Rightarrow> nat \<Rightarrow> u32) \<Rightarrow> u8 list \<Rightarrow> nat \<Rightarrow> nat" where
  "neigh_hash_val hash pkey d = unat (hash pkey d AND NEIGH_HASHMASK)"

definition neigh_match :: "neigh_table \<Rightarrow> u8 list \<Rightarrow> nat \<Rightarrow> nat \<Rightarrow> bool" where
  "neigh_match t pkey d a =
     (d = dev (neigh_at t a)
      \<and> take (key_len t) (primary_key (neigh_at t a)) = take (key_len t) pkey)"

definition neigh_lookup ::
  "(u8 list \<Rightarrow> nat \<Rightarrow> u32) \<Rightarrow> neigh_table \<Rightarrow> u8 list \<Rightarrow> nat \<Rightarrow> nat option \<times> neigh_table" where
  "neigh_lookup hash t pkey d =
     (case find (neigh_match t pkey d) (hash_buckets t (neigh_hash_val hash pkey d)) of
        None \<Rightarrow> (None, t)
      | Some a \<Rightarrow> (Some a, tbl_neigh_hold a t))"



subsection \<open>Proxy entries: \<open>pneigh_lookup\<close>\<close>

text \<open>Lines 376-381. \<open>load_u32\<close> reads the last four bytes of the key as a \<open>u32\<close> in
  the byte order of the machine.\<close>

definition pneigh_hash :: "(u8 list \<Rightarrow> u32) \<Rightarrow> nat \<Rightarrow> u8 list \<Rightarrow> nat" where
  "pneigh_hash load_u32 klen pkey =
     (let h0 = load_u32 (drop (klen - 4) (take klen pkey));
          h1 = h0 XOR drop_bit 16 h0;
          h2 = h1 XOR drop_bit 8 h1;
          h3 = h2 XOR drop_bit 4 h2
      in unat (h3 AND PNEIGH_HASHMASK))"

definition pneigh_match :: "nat \<Rightarrow> u8 list \<Rightarrow> nat option \<Rightarrow> pneigh_entry \<Rightarrow> bool" where
  "pneigh_match klen pkey d n =
     (take klen (pn_key n) = take klen pkey \<and> (pn_dev n = d \<or> pn_dev n = None))"

text \<open>\<open>pneigh_lookup\<close>. \<open>kmalloc\<close> tells whether the allocation of line 397 succeeds;
  \<open>pconstructor\<close> is \<open>tbl->pconstructor\<close>, \<open>None\<close> for a null pointer.\<close>

definition pneigh_lookup ::
  "(u8 list \<Rightarrow> u32) \<Rightarrow> (pneigh_entry \<Rightarrow> int) option \<Rightarrow> bool \<Rightarrow> neigh_table \<Rightarrow> u8 list
     \<Rightarrow> nat option \<Rightarrow> bool \<Rightarrow> pneigh_entry option \<times> neigh_table" where
  "pneigh_lookup load_u32 pconstructor kmalloc t pkey d creat =
     (let hash_val = pneigh_hash load_u32 (key_len t) pkey in
      case find (pneigh_match (key_len t) pkey d) (phash_buckets t hash_val) of
        Some n \<Rightarrow> (Some n, t)
      | None \<Rightarrow>
          if \<not> creat then (None, t)
          else if \<not> kmalloc then (None, t)
          else
            (let n = \<lparr>pn_dev = d, pn_key = take (key_len t) pkey\<rparr> in
             if (case pconstructor of None \<Rightarrow> False | Some c \<Rightarrow> c n \<noteq> 0) then (None, t)
             else (Some n,
                   t\<lparr>phash_buckets :=
                        (phash_buckets t)(hash_val := n # phash_buckets t hash_val)\<rparr>)))"

subsection \<open>The rounds of the two drain loops\<close>

text \<open>For the statements about the loops of lines 683-688 and 923-932: the entry and the
  packets taken after \<open>i\<close> rounds of "take the packet at the head of the queue and hand
  it to the callback", written without any test of the state. \<open>report_run\<close> hands the
  packets to \<open>error_report\<close>, \<open>xmit_run\<close> to the output function. A round on an empty
  queue does nothing.\<close>

primrec report_run ::
  "(sk_buff \<Rightarrow> neighbour \<Rightarrow> neighbour) \<Rightarrow> nat \<Rightarrow> neighbour \<Rightarrow> neighbour \<times> sk_buff list" where
  "report_run error_report 0 m = (m, [])"
| "report_run error_report (Suc i) m =
     (case arp_queue m of
        [] \<Rightarrow> (m, [])
      | skb # rest \<Rightarrow>
          (let (m', r) = report_run error_report i (error_report skb (m\<lparr>arp_queue := rest\<rparr>))
           in (m', skb # r)))"

primrec xmit_run ::
  "(nat option \<Rightarrow> sk_buff \<Rightarrow> neighbour \<Rightarrow> neighbour) \<Rightarrow> nat \<Rightarrow> neighbour
     \<Rightarrow> neighbour \<times> sk_buff list" where
  "xmit_run out 0 m = (m, [])"
| "xmit_run out (Suc i) m =
     (case arp_queue m of
        [] \<Rightarrow> (m, [])
      | skb # rest \<Rightarrow>
          (let (m', r) = xmit_run out i (out (skb_dst_neighbour skb) skb (m\<lparr>arp_queue := rest\<rparr>))
           in (m', skb # r)))"

text \<open>The loop of lines 683-688 tests \<open>neigh->nud_state == NUD_FAILED\<close> and then takes
  a packet off the queue, before every round. It leaves after \<open>k\<close> rounds when each of
  the rounds before found the state \<open>FAILED\<close> and a packet to take, and the test after
  round \<open>k\<close> finds another state or an empty queue. The loop of lines 923-932 is the
  same with the test \<open>neigh->nud_state & NUD_VALID\<close>. For a given entry and callback at
  most one \<open>k\<close> qualifies.\<close>

definition report_stops ::
  "(sk_buff \<Rightarrow> neighbour \<Rightarrow> neighbour) \<Rightarrow> neighbour \<Rightarrow> nat \<Rightarrow> bool" where
  "report_stops error_report m k =
     (list_all (\<lambda>i. nud_state (fst (report_run error_report i m)) = NUD_FAILED
                     \<and> arp_queue (fst (report_run error_report i m)) \<noteq> []) [0..<k]
      \<and> (nud_state (fst (report_run error_report k m)) \<noteq> NUD_FAILED
          \<or> arp_queue (fst (report_run error_report k m)) = []))"

definition xmit_stops ::
  "(nat option \<Rightarrow> sk_buff \<Rightarrow> neighbour \<Rightarrow> neighbour) \<Rightarrow> neighbour \<Rightarrow> nat \<Rightarrow> bool" where
  "xmit_stops out m k =
     (list_all (\<lambda>i. nud_state (fst (xmit_run out i m)) AND NUD_VALID \<noteq> 0
                     \<and> arp_queue (fst (xmit_run out i m)) \<noteq> []) [0..<k]
      \<and> (nud_state (fst (xmit_run out k m)) AND NUD_VALID = 0
          \<or> arp_queue (fst (xmit_run out k m)) = []))"

subsection \<open>Reading a trace\<close>

text \<open>The packets handed to \<open>error_report\<close>, freed, and sent, each in the order of the
  trace.\<close>

fun reported :: "event list \<Rightarrow> sk_buff list" where
  "reported [] = []"
| "reported (Ev_error_report s # es) = s # reported es"
| "reported (e # es) = reported es"

fun freed :: "event list \<Rightarrow> sk_buff list" where
  "freed [] = []"
| "freed (Ev_kfree_skb s # es) = s # freed es"
| "freed (e # es) = freed es"

fun transmitted :: "event list \<Rightarrow> sk_buff list" where
  "transmitted [] = []"
| "transmitted (Ev_output a s # es) = s # transmitted es"
| "transmitted (e # es) = transmitted es"

text \<open>The parts of the result of the send path.\<close>

definition send_neigh :: "fault + (int \<times> neighbour \<times> event list) \<Rightarrow> neighbour option" where
  "send_neigh r = (case r of Inl f \<Rightarrow> None | Inr (rc, n, tr) \<Rightarrow> Some n)"

definition send_trace :: "fault + (int \<times> neighbour \<times> event list) \<Rightarrow> event list" where
  "send_trace r = (case r of Inl f \<Rightarrow> [] | Inr (rc, n, tr) \<Rightarrow> tr)"

subsection \<open>Sample data\<close>

definition parms0 :: neigh_parms where
  "parms0 = \<lparr>base_reachable_time = 30, retrans_time = 1, gc_staletime = 60,
     reachable_time = 30, delay_probe_time = 5, queue_len = 3, ucast_probes = 3,
     app_probes = 0, mcast_probes = 3, parms_dead = False\<rparr>"

definition neigh0 :: neighbour where
  "neigh0 = \<lparr>dev = 1, parms = 0, primary_key = [10, 0, 0, 1], ha = [0, 0, 0, 0, 0, 0],
     nud_state = NUD_NONE, flags = 0, refcnt = 2, dead = False, used = 0, confirmed = 0,
     updated = 0, probes = 0, arp_queue = [], output = Ops_output, hh = [],
     timer_pending = False, timer_expires = 0\<rparr>"

text \<open>A \<open>REACHABLE\<close> entry confirmed at time 0 and last used at time 98, and a
  \<open>DELAY\<close> entry confirmed at time 0.\<close>

definition neigh_reachable :: neighbour where
  "neigh_reachable = neigh0\<lparr>nud_state := NUD_REACHABLE, used := 98, timer_pending := True,
     output := Ops_connected_output\<rparr>"

definition neigh_delay :: neighbour where
  "neigh_delay = neigh0\<lparr>nud_state := NUD_DELAY, timer_pending := True\<rparr>"

text \<open>An \<open>INCOMPLETE\<close> entry that has sent its six probes, two packets waiting.\<close>

definition neigh_probed :: neighbour where
  "neigh_probed = neigh0\<lparr>nud_state := NUD_INCOMPLETE, probes := 6, timer_pending := True,
     arp_queue := [\<lparr>skb_tag = 1, skb_dst_neighbour = None\<rparr>,
                   \<lparr>skb_tag = 2, skb_dst_neighbour = None\<rparr>]\<rparr>"

text \<open>An \<open>INCOMPLETE\<close> entry held by its caller, three packets waiting; a
  \<open>REACHABLE\<close> and a \<open>PERMANENT\<close> entry with the address 1:2:3:4:5:6.\<close>

definition neigh_waiting :: neighbour where
  "neigh_waiting = neigh0\<lparr>nud_state := NUD_INCOMPLETE, refcnt := 3, timer_pending := True,
     arp_queue := [\<lparr>skb_tag = 1, skb_dst_neighbour = None\<rparr>,
                   \<lparr>skb_tag = 2, skb_dst_neighbour = None\<rparr>,
                   \<lparr>skb_tag = 3, skb_dst_neighbour = None\<rparr>]\<rparr>"

definition neigh_resolved :: neighbour where
  "neigh_resolved = neigh0\<lparr>nud_state := NUD_REACHABLE, refcnt := 3, timer_pending := True,
     ha := [1, 2, 3, 4, 5, 6], output := Ops_connected_output\<rparr>"

definition neigh_permanent :: neighbour where
  "neigh_permanent = neigh0\<lparr>nud_state := NUD_PERMANENT, ha := [1, 2, 3, 4, 5, 6],
     output := Ops_connected_output\<rparr>"

text \<open>Two callbacks for the first packet: an \<open>error_report\<close> that re-enters resolution
  on the entry, which goes back to \<open>INCOMPLETE\<close> with a new packet (tag 9) queued, and an
  output function that finds the neighbour gone and fails the entry.\<close>

definition report_reenters :: "sk_buff \<Rightarrow> neighbour \<Rightarrow> neighbour" where
  "report_reenters skb m =
     (if skb_tag skb = 1 then
        m\<lparr>nud_state := NUD_INCOMPLETE,
          arp_queue := arp_queue m @ [\<lparr>skb_tag = 9, skb_dst_neighbour = None\<rparr>]\<rparr>
      else m)"

definition output_fails :: "nat option \<Rightarrow> sk_buff \<Rightarrow> neighbour \<Rightarrow> neighbour" where
  "output_fails a skb m = (if skb_tag skb = 1 then m\<lparr>nud_state := NUD_FAILED\<rparr> else m)"

definition skb1 :: sk_buff where "skb1 = \<lparr>skb_tag = 1, skb_dst_neighbour = None\<rparr>"
definition skb2 :: sk_buff where "skb2 = \<lparr>skb_tag = 2, skb_dst_neighbour = None\<rparr>"
definition skb3 :: sk_buff where "skb3 = \<lparr>skb_tag = 3, skb_dst_neighbour = None\<rparr>"

text \<open>The fast path of an entry is off when its output and that of every cached header
  is the generic \<open>ops->output\<close>, and on when they are the connected ones.\<close>

definition fast_path_off :: "neighbour \<Rightarrow> bool" where
  "fast_path_off n =
     (output n = Ops_output \<and> list_all (\<lambda>h. hh_output h = Ops_output) (hh n))"

definition fast_path_on :: "neighbour \<Rightarrow> bool" where
  "fast_path_on n =
     (output n = Ops_connected_output \<and> list_all (\<lambda>h. hh_output h = Ops_hh_output) (hh n))"

subsection \<open>Invariants of the table\<close>



text \<open>What forced collection and the periodic sweep may discard.\<close>

definition forced_gc_may_discard :: "ulong \<Rightarrow> neigh_table \<Rightarrow> nat \<Rightarrow> bool" where
  "forced_gc_may_discard j t a =
     (refcnt (neigh_at t a) = 1 \<and> nud_state (neigh_at t a) AND NUD_PERMANENT = 0
      \<and> \<not> (nud_state (neigh_at t a) = NUD_INCOMPLETE
            \<and> \<not> time_after j (used (neigh_at t a)
                  + word_of_int (retrans_time (parms_at t (parms (neigh_at t a)))))))"

definition periodic_may_discard :: "neigh_table \<Rightarrow> nat \<Rightarrow> bool" where
  "periodic_may_discard t a =
     (refcnt (neigh_at t a) = 1 \<and> nud_state (neigh_at t a) AND NUD_PERMANENT = 0
      \<and> nud_state (neigh_at t a) \<noteq> NUD_INCOMPLETE)"

text \<open>Relations between the table at the start of a collection and the table later in
  it, for the proofs: \<open>gc_rel\<close> and \<open>sweep_rel\<close> say that an entry still has what the
  collector tests unless its last reference is gone, \<open>shrinks_but A\<close> that chains only
  lose members and that, off the addresses in \<open>A\<close>, keys and devices stay.\<close>

definition gc_rel :: "neigh_table \<Rightarrow> neigh_table \<Rightarrow> bool" where
  "gc_rel t0 t = (parms_at t = parms_at t0
      \<and> (\<forall>a. neigh_at t a = neigh_at t0 a \<or> refcnt (neigh_at t a) \<noteq> 1))"

definition sweep_rel :: "neigh_table \<Rightarrow> neigh_table \<Rightarrow> bool" where
  "sweep_rel t0 t =
     (\<forall>a. (refcnt (neigh_at t a) = refcnt (neigh_at t0 a)
            \<and> nud_state (neigh_at t a) = nud_state (neigh_at t0 a))
          \<or> refcnt (neigh_at t a) \<noteq> 1)"

definition shrinks_but :: "nat set \<Rightarrow> neigh_table \<Rightarrow> neigh_table \<Rightarrow> bool" where
  "shrinks_but A t t' =
     (key_len t' = key_len t \<and> gc_thresh3 t' = gc_thresh3 t
      \<and> (\<forall>b. b \<notin> A \<longrightarrow> primary_key (neigh_at t' b) = primary_key (neigh_at t b)
              \<and> dev (neigh_at t' b) = dev (neigh_at t b))
      \<and> (\<forall>i. set (hash_buckets t' i) \<subseteq> set (hash_buckets t i)
              \<and> (distinct (hash_buckets t i) \<longrightarrow> distinct (hash_buckets t' i))))"

abbreviation shrinks :: "neigh_table \<Rightarrow> neigh_table \<Rightarrow> bool" where
  "shrinks \<equiv> shrinks_but {}"

subsection \<open>Sample tables\<close>


definition tbl0 :: neigh_table where
  "tbl0 = \<lparr>key_len = 4, tbl_parms = 0, parms_next = [], gc_interval = 30, gc_thresh1 = 128,
     gc_thresh2 = 512, gc_thresh3 = 1024, last_flush = 0, last_rand = 0, gc_timer_expires = 0,
     entries = 0, stats_allocs = 0, neigh_glbl_allocs = 0, hash_buckets = (\<lambda>i. []),
     phash_buckets = (\<lambda>i. []), neigh_at = (\<lambda>a. neigh0), parms_at = (\<lambda>a. parms0)\<rparr>"

definition tbl_full :: neigh_table where
  "tbl_full = tbl0\<lparr>gc_thresh2 := 1, gc_thresh3 := 1, entries := 3,
     hash_buckets := (\<lambda>i. [])(0 := [10, 11]),
     neigh_at := (\<lambda>a. neigh0)(10 := neigh0\<lparr>nud_state := NUD_STALE, refcnt := 1\<rparr>,
                               11 := neigh0\<lparr>nud_state := NUD_STALE, refcnt := 2\<rparr>)\<rparr>"


definition load_le32 :: "u8 list \<Rightarrow> u32" where
  "load_le32 bs = word_of_nat (foldr (\<lambda>b acc. unat b + 256 * acc) bs 0)"

definition tbl_proxy :: neigh_table where
  "tbl_proxy = tbl0\<lparr>phash_buckets :=
     (\<lambda>i. [])(11 := [\<lparr>pn_dev = None, pn_key = [10, 0, 0, 1]\<rparr>])\<rparr>"

section \<open>Properties\<close>

subsection \<open>Bit masks\<close>

lemma and_or_zero:
  "(x::'a::len word) AND (a OR b) = 0 \<longleftrightarrow> x AND a = 0 \<and> x AND b = 0"
  by (auto simp: bit_eq_iff bit_and_iff bit_or_iff)


lemmas mask_defs = NUD_IN_TIMER_def NUD_VALID_def NUD_CONNECTED_def

lemma in_timer_reachable: "x AND NUD_REACHABLE \<noteq> 0 \<Longrightarrow> x AND NUD_IN_TIMER \<noteq> 0"
  by (auto simp: NUD_IN_TIMER_def and_or_zero)

lemma in_timer_delay: "x AND NUD_DELAY \<noteq> 0 \<Longrightarrow> x AND NUD_IN_TIMER \<noteq> 0"
  by (auto simp: NUD_IN_TIMER_def and_or_zero)

subsection \<open>Sums of C integers\<close>

text \<open>Within the range of \<open>int\<close> the sum is the sum of the integers; past it the sum
  wraps, and a sum that is zero stays zero.\<close>

lemma c_int_add_exact:
  assumes "- 2147483648 \<le> a + b" and "a + b < 2147483648"
  shows "c_int_add a b = a + b"
proof -
  have "c_int_add a b = sint (word_of_int (a + b) :: 32 word)"
    by (simp add: c_int_add_def)
  also have "\<dots> = signed_take_bit 31 (a + b)"
    by (simp only: sint_sbintrunc') simp
  also have "\<dots> = a + b"
    using assms by (intro signed_take_bit_int_eq_self) simp_all
  finally show ?thesis .
qed

lemma c_int_add_wraps: "c_int_add (- 2147483648) (- 1) = 2147483647"
  by (simp add: c_int_add_def)

lemma c_int_add_zero: "a + b = 0 \<Longrightarrow> c_int_add a b = 0"
  by (simp add: c_int_add_def flip: of_int_add)

subsection \<open>Releasing a reference\<close>

lemma neigh_release_cases:
  "fst (neigh_release n) = n\<lparr>refcnt := refcnt n - 1\<rparr> \<or>
   fst (neigh_release n) = n\<lparr>refcnt := 0, hh := [], arp_queue := []\<rparr> \<or>
   fst (neigh_release n) = n\<lparr>refcnt := - 1, timer_pending := False, hh := [], arp_queue := []\<rparr>"
  by (auto simp: neigh_release_def neigh_destroy_def neigh_del_timer_def
      neigh_release_no_timer_def neigh_destroy_tail_def Let_def split: if_splits prod.splits)

lemma neigh_release_keeps:
  "nud_state (fst (neigh_release n)) = nud_state n"
  "probes (fst (neigh_release n)) = probes n"
  "output (fst (neigh_release n)) = output n"
  using neigh_release_cases [of n] by auto

text \<open>On an entry whose timer is not pending, the unrolled release is the release.\<close>

lemma neigh_release_idle:
  "\<not> timer_pending n \<Longrightarrow> neigh_release_no_timer n = neigh_release n"
  by (simp add: neigh_release_def neigh_destroy_def neigh_del_timer_def
      neigh_release_no_timer_def Let_def split_beta)

lemma fast_path_off_release: "fast_path_off n \<Longrightarrow> fast_path_off (fst (neigh_release n))"
  using neigh_release_cases [of n] by (auto simp: fast_path_off_def)

lemma fast_path_on_release: "fast_path_on n \<Longrightarrow> fast_path_on (fst (neigh_release n))"
  using neigh_release_cases [of n] by (auto simp: fast_path_on_def)

lemma fast_path_off_suspect: "fast_path_off (neigh_suspect n)"
  by (simp add: fast_path_off_def neigh_suspect_def list_all_iff)

lemma fast_path_on_connect: "fast_path_on (neigh_connect n)"
  by (simp add: fast_path_on_def neigh_connect_def list_all_iff)

lemma suspect_connect_fields [simp]:
  "nud_state (neigh_suspect n) = nud_state n" "nud_state (neigh_connect n) = nud_state n"
  "probes (neigh_suspect n) = probes n" "probes (neigh_connect n) = probes n"
  "arp_queue (neigh_suspect n) = arp_queue n" "arp_queue (neigh_connect n) = arp_queue n"
  by (simp_all add: neigh_suspect_def neigh_connect_def)

subsection \<open>The send path\<close>

text \<open>
  Claim C4, as the code has it: when \<open>__neigh_event_send\<close> is called with a packet on an
  entry that is in none of the states CONNECTED, DELAY, PROBE, STALE and INCOMPLETE, and
  \<open>mcast_probes + app_probes\<close> is zero, the entry enters \<open>FAILED\<close>, the call returns 1
  and the packet is freed with \<open>kfree_skb\<close>; \<open>error_report\<close> is not called.
\<close>

theorem neigh_event_send_zero_probes:
  assumes "nud_state n AND (NUD_CONNECTED OR NUD_DELAY OR NUD_PROBE OR NUD_STALE OR NUD_INCOMPLETE) = 0"
    and "mcast_probes p + app_probes p = 0"
  shows "uu_neigh_event_send p j n (Some skb)
           = Inr (1, n\<lparr>nud_state := NUD_FAILED\<rparr>, [Ev_kfree_skb skb])"
  using assms by (simp add: uu_neigh_event_send_def and_or_zero c_int_add_zero)

theorem neigh_event_send_zero_probes_witness:
  "nud_state neigh0 AND (NUD_CONNECTED OR NUD_DELAY OR NUD_PROBE OR NUD_STALE OR NUD_INCOMPLETE) = 0
   \<and> mcast_probes (parms0\<lparr>mcast_probes := 0\<rparr>) + app_probes (parms0\<lparr>mcast_probes := 0\<rparr>) = 0
   \<and> uu_neigh_event_send (parms0\<lparr>mcast_probes := 0\<rparr>) 7 neigh0 (Some skb1)
       = Inr (1, neigh0\<lparr>nud_state := NUD_FAILED\<rparr>, [Ev_kfree_skb skb1])"
  using neigh_event_send_zero_probes [of neigh0 "parms0\<lparr>mcast_probes := 0\<rparr>" 7 skb1]
  by (simp add: neigh0_def parms0_def nud_defs mask_defs)

text \<open>
  Claim C4 as the spec states it fails: a fresh entry (state \<open>NONE\<close>) with all probe
  counts zero goes to \<open>FAILED\<close>, and the packet is freed, not handed to \<open>error_report\<close>.
\<close>

theorem neigh_event_send_zero_probes_not_reported:
  "send_neigh (uu_neigh_event_send
       (parms0\<lparr>ucast_probes := 0, mcast_probes := 0\<rparr>) 0 neigh0 (Some skb1))
     = Some (neigh0\<lparr>nud_state := NUD_FAILED\<rparr>)
   \<and> skb1 \<notin> set (reported (send_trace (uu_neigh_event_send
       (parms0\<lparr>ucast_probes := 0, mcast_probes := 0\<rparr>) 0 neigh0 (Some skb1))))
   \<and> freed (send_trace (uu_neigh_event_send
       (parms0\<lparr>ucast_probes := 0, mcast_probes := 0\<rparr>) 0 neigh0 (Some skb1))) = [skb1]"
  by (simp add: uu_neigh_event_send_def c_int_add_def parms0_def neigh0_def nud_defs mask_defs
      send_neigh_def send_trace_def)


text \<open>The queue bound is kept by the code wherever it does not fault: a queue within
  \<open>queue_len\<close> (read as unsigned, as the comparison of line 753 reads it) stays within
  it, and a non-empty queue at the limit loses its oldest packet and gains the new one at
  the tail.\<close>

lemma neigh_enqueue_bound:
  assumes "neigh_enqueue p n skb = Inr (rc, n', tr)"
    and "length (arp_queue n) \<le> unat (word_of_int (queue_len p) :: u32)"
  shows "length (arp_queue n') \<le> unat (word_of_int (queue_len p) :: u32)"
proof -
  let ?w = "word_of_int (queue_len p) :: u32"
  have lt: "length (arp_queue n) < unat ?w"
    if "\<not> ?w \<le> of_nat (length (arp_queue n))"
  proof -
    have "length (arp_queue n) \<noteq> unat ?w" using that by auto
    then show ?thesis using assms(2) by simp
  qed
  show ?thesis
    using assms lt
    by (auto simp: neigh_enqueue_def split: if_splits option.splits list.splits)
qed

lemma neigh_event_send_bound:
  assumes "uu_neigh_event_send p j n skb = Inr (rc, n', tr)"
    and "length (arp_queue n) \<le> unat (word_of_int (queue_len p) :: u32)"
  shows "length (arp_queue n') \<le> unat (word_of_int (queue_len p) :: u32)"
  using assms
  by (auto simp: uu_neigh_event_send_def add_timer_def neigh_hold_def
      split: if_splits option.splits dest!: neigh_enqueue_bound)

lemma neigh_event_send_drops_oldest:
  assumes "nud_state n = NUD_INCOMPLETE" and "arp_queue n = buff # rest"
    and "(word_of_int (queue_len p) :: u32) \<le> of_nat (length (arp_queue n))"
  shows "uu_neigh_event_send p j n (Some skb)
           = Inr (1, n\<lparr>arp_queue := rest @ [skb]\<rparr>, [Ev_kfree_skb buff])"
  using assms
  by (simp add: uu_neigh_event_send_def neigh_enqueue_def nud_defs mask_defs)

text \<open>
  Claim C2, where the code breaks it: with \<open>queue_len = 0\<close> the first packet sent to an
  entry whose queue is empty finds the queue "full" (0 \<ge> 0); the code takes
  \<open>arp_queue.next\<close>, which on an empty queue is the list head itself, unlinks and frees
  it as a packet, and then queues the new packet. No queued packet is dropped, and the
  queue does not stay within \<open>queue_len\<close>.
\<close>

theorem neigh_event_send_queue_len_zero:
  "uu_neigh_event_send (parms0\<lparr>queue_len := 0\<rparr>) 0
       (neigh0\<lparr>nud_state := NUD_INCOMPLETE, arp_queue := []\<rparr>) (Some skb1)
     = Inl Unlink_queue_head
   \<and> uu_neigh_event_send (parms0\<lparr>queue_len := 0\<rparr>) 0 neigh0 (Some skb1)
     = Inl Unlink_queue_head"
  by (simp add: uu_neigh_event_send_def c_int_add_def neigh_enqueue_def parms0_def neigh0_def
      nud_defs mask_defs add_timer_def neigh_hold_def)

subsection \<open>The per-entry timer\<close>

lemma timer_fail_skip:
  "nud_state n AND (NUD_INCOMPLETE OR NUD_PROBE) = 0 \<Longrightarrow> neigh_timer_fail er p n = Some (n, [])"
  by (simp add: neigh_timer_fail_def)

lemma timer_rearm_fields:
  "nud_state (fst (neigh_timer_rearm HZ j nx n)) = nud_state n"
  "output (fst (neigh_timer_rearm HZ j nx n)) = output n"
  "hh (fst (neigh_timer_rearm HZ j nx n)) = hh n"
  "arp_queue (fst (neigh_timer_rearm HZ j nx n)) = arp_queue n"
  by (simp_all add: neigh_timer_rearm_def Let_def add_timer_def neigh_hold_def)

lemma handler_after_transition:
  assumes "nud_state n AND NUD_IN_TIMER \<noteq> 0"
    and "neigh_timer_transition HZ p now (n\<lparr>timer_pending := False\<rparr>) = (n1, nx)"
    and "nud_state n1 AND (NUD_INCOMPLETE OR NUD_PROBE) = 0"
  shows "neigh_timer_handler HZ er p now n =
           Some (fst (neigh_release (fst (neigh_timer_rearm HZ now nx n1))),
                 snd (neigh_timer_rearm HZ now nx n1)
                   @ snd (neigh_release (fst (neigh_timer_rearm HZ now nx n1))))"
  using assms by (simp add: neigh_timer_handler_def timer_fail_skip split_beta)

lemma handler_reachable_expired:
  assumes "nud_state n AND NUD_REACHABLE \<noteq> 0"
    and "\<not> time_before_eq now (confirmed n + word_of_int (reachable_time p))"
  shows "\<exists>n' tr. neigh_timer_handler HZ er p now n = Some (n', tr)
           \<and> nud_state n' = (if time_before_eq now (used n + word_of_int (delay_probe_time p))
                              then NUD_DELAY else NUD_STALE)
           \<and> fast_path_off n'"
proof -
  let ?m = "n\<lparr>timer_pending := False\<rparr>"
  let ?s = "if time_before_eq now (used n + word_of_int (delay_probe_time p))
            then NUD_DELAY else NUD_STALE"
  have it: "nud_state n AND NUD_IN_TIMER \<noteq> 0"
    using assms(1) by (simp add: in_timer_reachable)
  have "fst (neigh_timer_transition HZ p now ?m) = neigh_suspect (?m\<lparr>nud_state := ?s\<rparr>)"
    using assms by (simp add: neigh_timer_transition_def)
  then obtain nx where
    tr: "neigh_timer_transition HZ p now ?m = (neigh_suspect (?m\<lparr>nud_state := ?s\<rparr>), nx)"
    by (cases "neigh_timer_transition HZ p now ?m") simp
  have st: "nud_state (neigh_suspect (?m\<lparr>nud_state := ?s\<rparr>)) AND (NUD_INCOMPLETE OR NUD_PROBE) = 0"
    by (simp add: nud_defs)
  have off: "fast_path_off (fst (neigh_timer_rearm HZ now nx (neigh_suspect (?m\<lparr>nud_state := ?s\<rparr>))))"
    using fast_path_off_suspect [of "?m\<lparr>nud_state := ?s\<rparr>"]
    by (simp add: fast_path_off_def timer_rearm_fields)
  show ?thesis
    unfolding handler_after_transition [OF it tr st]
    using fast_path_off_release [OF off]
    by (simp add: neigh_release_keeps timer_rearm_fields)
qed

lemma handler_delay_confirmed:
  assumes "nud_state n AND NUD_REACHABLE = 0" and "nud_state n AND NUD_DELAY \<noteq> 0"
    and "time_before_eq now (confirmed n + word_of_int (delay_probe_time p))"
  shows "\<exists>n' tr. neigh_timer_handler HZ er p now n = Some (n', tr)
           \<and> nud_state n' = NUD_REACHABLE \<and> fast_path_on n'"
proof -
  let ?m = "n\<lparr>timer_pending := False\<rparr>"
  have it: "nud_state n AND NUD_IN_TIMER \<noteq> 0"
    using assms(2) by (simp add: in_timer_delay)
  obtain nx where
    tr: "neigh_timer_transition HZ p now ?m = (neigh_connect (?m\<lparr>nud_state := NUD_REACHABLE\<rparr>), nx)"
    using assms by (simp add: neigh_timer_transition_def)
  have st: "nud_state (neigh_connect (?m\<lparr>nud_state := NUD_REACHABLE\<rparr>))
              AND (NUD_INCOMPLETE OR NUD_PROBE) = 0"
    by (simp add: nud_defs)
  have on: "fast_path_on (fst (neigh_timer_rearm HZ now nx
              (neigh_connect (?m\<lparr>nud_state := NUD_REACHABLE\<rparr>))))"
    using fast_path_on_connect [of "?m\<lparr>nud_state := NUD_REACHABLE\<rparr>"]
    by (simp add: fast_path_on_def timer_rearm_fields)
  show ?thesis
    unfolding handler_after_transition [OF it tr st]
    using fast_path_on_release [OF on]
    by (simp add: neigh_release_keeps timer_rearm_fields)
qed

lemma transition_delay_probe:
  assumes "nud_state n AND NUD_REACHABLE = 0" and "nud_state n AND NUD_DELAY \<noteq> 0"
    and "\<not> time_before_eq now (confirmed n + word_of_int (delay_probe_time p))"
  shows "neigh_timer_transition HZ p now n
           = (n\<lparr>nud_state := NUD_PROBE, probes := 0\<rparr>, now + word_of_int (retrans_time p))"
  using assms by (simp add: neigh_timer_transition_def)

lemma handler_delay_probe:
  assumes "nud_state n AND NUD_REACHABLE = 0" and "nud_state n AND NUD_DELAY \<noteq> 0"
    and "\<not> time_before_eq now (confirmed n + word_of_int (delay_probe_time p))"
    and "0 < ucast_probes p"
  shows "\<exists>n' tr. neigh_timer_handler HZ er p now n = Some (n', tr)
           \<and> nud_state n' = NUD_PROBE \<and> probes n' = 1
           \<and> Ev_solicit (case arp_queue n of [] \<Rightarrow> None | skb # x \<Rightarrow> Some skb) \<in> set tr"
proof -
  let ?m = "n\<lparr>timer_pending := False\<rparr>"
  let ?n1 = "?m\<lparr>nud_state := NUD_PROBE, probes := 0\<rparr>"
  have it: "nud_state ?m AND NUD_IN_TIMER \<noteq> 0"
    using assms(2) by (simp add: in_timer_delay)
  obtain nx where tr: "neigh_timer_transition HZ p now ?m = (?n1, nx)"
    using assms by (simp add: neigh_timer_transition_def)
  have fl: "neigh_timer_fail er p ?n1 = Some (?n1, [])"
    using assms(4) by (simp add: neigh_timer_fail_def neigh_max_probes_def nud_defs)
  have ra: "probes (fst (neigh_timer_rearm HZ now nx ?n1)) = 1"
    "snd (neigh_timer_rearm HZ now nx ?n1)
       = [Ev_solicit (case arp_queue n of [] \<Rightarrow> None | skb # x \<Rightarrow> Some skb)]"
    by (simp_all add: neigh_timer_rearm_def Let_def add_timer_def neigh_hold_def
        nud_defs mask_defs)
  show ?thesis using it
    by (simp add: neigh_timer_handler_def Let_def tr fl split_beta neigh_release_keeps
        timer_rearm_fields ra)
qed

text \<open>
  Claim C7, as the code has it: when the timer fires on a \<open>REACHABLE\<close> entry whose
  reachable-time window has elapsed, the fast path is suspended and the entry moves to
  \<open>DELAY\<close> if it was used within \<open>delay_probe_time\<close> (\<open>now\<close> is not after
  \<open>used + delay_probe_time\<close>), and to \<open>STALE\<close> otherwise. When it fires on a \<open>DELAY\<close>
  entry, the entry returns to \<open>REACHABLE\<close>, fast path on, if it was confirmed within
  \<open>delay_probe_time\<close>; otherwise lines 659-662 set it to \<open>PROBE\<close> with the probe counter
  at zero, and with \<open>ucast_probes > 0\<close> the handler returns it in \<open>PROBE\<close> with the
  probe of this firing solicited and counted (the counter reads 1).
\<close>

theorem neigh_timer_handler_reachable_delay:
  "(nud_state n AND NUD_REACHABLE \<noteq> 0
      \<and> \<not> time_before_eq now (confirmed n + word_of_int (reachable_time p))
     \<longrightarrow> (\<exists>n' tr. neigh_timer_handler HZ er p now n = Some (n', tr)
           \<and> nud_state n' = (if time_before_eq now (used n + word_of_int (delay_probe_time p))
                              then NUD_DELAY else NUD_STALE)
           \<and> fast_path_off n'))
   \<and> (nud_state n AND NUD_REACHABLE = 0 \<and> nud_state n AND NUD_DELAY \<noteq> 0
        \<and> time_before_eq now (confirmed n + word_of_int (delay_probe_time p))
     \<longrightarrow> (\<exists>n' tr. neigh_timer_handler HZ er p now n = Some (n', tr)
           \<and> nud_state n' = NUD_REACHABLE \<and> fast_path_on n'))
   \<and> (nud_state n AND NUD_REACHABLE = 0 \<and> nud_state n AND NUD_DELAY \<noteq> 0
        \<and> \<not> time_before_eq now (confirmed n + word_of_int (delay_probe_time p))
     \<longrightarrow> fst (neigh_timer_transition HZ p now n) = n\<lparr>nud_state := NUD_PROBE, probes := 0\<rparr>
         \<and> (0 < ucast_probes p
            \<longrightarrow> (\<exists>n' tr. neigh_timer_handler HZ er p now n = Some (n', tr)
                  \<and> nud_state n' = NUD_PROBE \<and> probes n' = 1
                  \<and> Ev_solicit (case arp_queue n of [] \<Rightarrow> None | skb # x \<Rightarrow> Some skb)
                       \<in> set tr)))"
  using handler_reachable_expired [of n now p HZ er]
    handler_delay_confirmed [of n now p HZ er]
    handler_delay_probe [of n now p HZ er]
    transition_delay_probe [of n now p HZ]
  by simp

theorem neigh_timer_handler_reachable_delay_witness:
  "nud_state neigh_reachable AND NUD_REACHABLE \<noteq> 0
   \<and> \<not> time_before_eq 100 (confirmed neigh_reachable + word_of_int (reachable_time parms0))
   \<and> time_before_eq 100 (used neigh_reachable + word_of_int (delay_probe_time parms0))
   \<and> (\<exists>n' tr. neigh_timer_handler 100 (\<lambda>s m. m) parms0 100 neigh_reachable = Some (n', tr)
         \<and> nud_state n' = NUD_DELAY \<and> fast_path_off n')
   \<and> nud_state neigh_delay AND NUD_REACHABLE = 0 \<and> nud_state neigh_delay AND NUD_DELAY \<noteq> 0
   \<and> time_before_eq 3 (confirmed neigh_delay + word_of_int (delay_probe_time parms0))
   \<and> (\<exists>n' tr. neigh_timer_handler 100 (\<lambda>s m. m) parms0 3 neigh_delay = Some (n', tr)
         \<and> nud_state n' = NUD_REACHABLE \<and> fast_path_on n')
   \<and> \<not> time_before_eq 100 (confirmed neigh_delay + word_of_int (delay_probe_time parms0))
   \<and> 0 < ucast_probes parms0
   \<and> (\<exists>n' tr. neigh_timer_handler 100 (\<lambda>s m. m) parms0 100 neigh_delay = Some (n', tr)
         \<and> nud_state n' = NUD_PROBE \<and> probes n' = 1 \<and> Ev_solicit None \<in> set tr)"
  using neigh_timer_handler_reachable_delay [of neigh_reachable 100 parms0 100 "\<lambda>s m. m"]
    neigh_timer_handler_reachable_delay [of neigh_delay 3 parms0 100 "\<lambda>s m. m"]
    neigh_timer_handler_reachable_delay [of neigh_delay 100 parms0 100 "\<lambda>s m. m"]
  by (simp add: neigh_reachable_def neigh_delay_def neigh0_def parms0_def nud_defs
      time_before_eq_def time_after_eq_def)

text \<open>
  Claim C7 as the spec states it fails: a \<open>REACHABLE\<close> entry confirmed at time 0 and last
  used at time 0, whose timer fires at time 100 with \<open>reachable_time = 30\<close> and
  \<open>delay_probe_time = 5\<close>, moves to \<open>STALE\<close>, not to \<open>DELAY\<close>.
\<close>

theorem neigh_timer_handler_reachable_to_stale:
  "neigh_timer_handler 100 (\<lambda>s m. m) parms0 100 (neigh_reachable\<lparr>used := 0\<rparr>)
     = Some (neigh_reachable\<lparr>used := 0, timer_pending := False, nud_state := NUD_STALE,
               output := Ops_output, refcnt := 1\<rparr>, [])
   \<and> NUD_STALE \<noteq> NUD_DELAY"
  by (simp add: neigh_timer_handler_def neigh_timer_transition_def neigh_timer_fail_def
      neigh_timer_rearm_def neigh_release_def neigh_suspect_def
      neigh_reachable_def neigh0_def parms0_def nud_defs mask_defs
      time_before_eq_def time_after_eq_def)


subsection \<open>Traces\<close>


lemma reported_append [simp]: "reported (a @ b) = reported a @ reported b"
  by (induction a rule: reported.induct) simp_all
lemma freed_append [simp]: "freed (a @ b) = freed a @ freed b"
  by (induction a rule: freed.induct) simp_all
lemma transmitted_append [simp]: "transmitted (a @ b) = transmitted a @ transmitted b"
  by (induction a rule: transmitted.induct) simp_all

lemma reported_map [simp]:
  "reported (map Ev_error_report q) = q" "reported (map Ev_kfree_skb q) = []"
  "freed (map Ev_kfree_skb q) = q" "freed (map Ev_error_report q) = []"
  by (induction q) simp_all

lemma report_stops_iff:
  "report_stops er m k \<longleftrightarrow>
     (\<forall>i<k. nud_state (fst (report_run er i m)) = NUD_FAILED
            \<and> arp_queue (fst (report_run er i m)) \<noteq> [])
     \<and> (nud_state (fst (report_run er k m)) \<noteq> NUD_FAILED
        \<or> arp_queue (fst (report_run er k m)) = [])"
  by (auto simp: report_stops_def list_all_iff)

lemma report_stops_0:
  "report_stops er m 0 \<longleftrightarrow> nud_state m \<noteq> NUD_FAILED \<or> arp_queue m = []"
  by (simp add: report_stops_def)

lemma report_run_step:
  "arp_queue m = skb # rest \<Longrightarrow>
     fst (report_run er (Suc i) m) = fst (report_run er i (er skb (m\<lparr>arp_queue := rest\<rparr>)))
     \<and> snd (report_run er (Suc i) m)
         = skb # snd (report_run er i (er skb (m\<lparr>arp_queue := rest\<rparr>)))"
  by (simp add: split_beta)

lemma report_stops_Suc:
  assumes "nud_state m = NUD_FAILED" and q: "arp_queue m = skb # rest"
  shows "report_stops er m (Suc k) \<longleftrightarrow> report_stops er (er skb (m\<lparr>arp_queue := rest\<rparr>)) k"
proof -
  let ?m = "er skb (m\<lparr>arp_queue := rest\<rparr>)"
  let ?P = "\<lambda>i m. nud_state (fst (report_run er i m)) = NUD_FAILED
                 \<and> arp_queue (fst (report_run er i m)) \<noteq> []"
  have sh: "fst (report_run er (Suc i) m) = fst (report_run er i ?m)" for i
    using report_run_step [OF q] by simp
  have "(\<forall>i<Suc k. ?P i m) \<longleftrightarrow> ?P 0 m \<and> (\<forall>i<k. ?P (Suc i) m)"
    by (rule All_less_Suc2)
  also have "\<dots> \<longleftrightarrow> (\<forall>i<k. ?P i ?m)"
    using assms by (simp only: sh) simp
  finally show ?thesis
    unfolding report_stops_iff by (simp only: sh)
qed

lemma report_loop_run:
  "report_stops er m k \<Longrightarrow>
     neigh_report_loop er m tr
       = Some (fst (report_run er k m), tr @ map Ev_error_report (snd (report_run er k m)))"
proof (induction k arbitrary: m tr)
  case 0
  then show ?case
    by (subst neigh_report_loop.simps) (auto simp: report_stops_0 split: list.splits)
next
  case (Suc k)
  from Suc.prems have h0: "nud_state m = NUD_FAILED" "arp_queue m \<noteq> []"
    unfolding report_stops_iff by (auto dest: spec [of _ 0])
  then obtain skb rest where q: "arp_queue m = skb # rest" by (cases "arp_queue m") auto
  let ?m = "er skb (m\<lparr>arp_queue := rest\<rparr>)"
  have c: "report_stops er ?m k"
    using Suc.prems report_stops_Suc [OF h0(1) q] by simp
  have step: "neigh_report_loop er m tr = neigh_report_loop er ?m (tr @ [Ev_error_report skb])"
    using h0 q by (subst neigh_report_loop.simps) simp
  show ?case
    unfolding step Suc.IH [OF c]
    using report_run_step [OF q, of er k] by simp
qed

lemma report_loop_stops:
  assumes "neigh_report_loop er m tr = Some y"
  shows "\<exists>k. report_stops er m k"
proof (rule neigh_report_loop.raw_induct
    [where P = "\<lambda>er m tr y. \<exists>k. report_stops er m k", OF _ assms])
  fix loop :: "(sk_buff \<Rightarrow> neighbour \<Rightarrow> neighbour) \<Rightarrow> neighbour \<Rightarrow> event list
     \<Rightarrow> (neighbour \<times> event list) option"
  fix er m tr y
  assume ih: "\<And>er m tr y. loop er m tr = Some y \<Longrightarrow> \<exists>k. report_stops er m k"
    and eq: "(if nud_state m = NUD_FAILED then
               (case arp_queue m of
                  [] \<Rightarrow> Some (m, tr)
                | skb # rest \<Rightarrow>
                    loop er (er skb (m\<lparr>arp_queue := rest\<rparr>)) (tr @ [Ev_error_report skb]))
             else Some (m, tr)) = Some y"
  show "\<exists>k. report_stops er m k"
  proof (cases "nud_state m = NUD_FAILED \<and> arp_queue m \<noteq> []")
    case False
    then have "report_stops er m 0" by (auto simp: report_stops_0)
    then show ?thesis ..
  next
    case True
    then obtain skb rest where q: "arp_queue m = skb # rest" by (cases "arp_queue m") auto
    let ?m = "er skb (m\<lparr>arp_queue := rest\<rparr>)"
    have "loop er ?m (tr @ [Ev_error_report skb]) = Some y"
      using eq True q by simp
    from ih [OF this] obtain k where "report_stops er ?m k" ..
    then have "report_stops er m (Suc k)"
      using report_stops_Suc [of m skb rest er k] True q by simp
    then show ?thesis ..
  qed
qed

lemma report_run_queue_kept:
  assumes H: "\<forall>s m. arp_queue (er s m) = arp_queue m"
  shows "arp_queue (fst (report_run er i m)) = drop i (arp_queue m)
         \<and> snd (report_run er i m) = take i (arp_queue m)"
proof (induction i arbitrary: m)
  case 0
  then show ?case by simp
next
  case (Suc i)
  show ?case
  proof (cases "arp_queue m")
    case Nil
    then show ?thesis by simp
  next
    case (Cons skb rest)
    show ?thesis
      using Suc [of "er skb (m\<lparr>arp_queue := rest\<rparr>)"] H Cons
      by (simp add: split_beta)
  qed
qed

lemma report_run_state_kept:
  assumes "\<forall>s m. nud_state (er s m) = nud_state m"
  shows "nud_state (fst (report_run er i m)) = nud_state m"
proof (induction i arbitrary: m)
  case 0
  then show ?case by simp
next
  case (Suc i)
  show ?case
  proof (cases "arp_queue m")
    case Nil
    then show ?thesis by simp
  next
    case (Cons skb rest)
    show ?thesis
      using Suc [of "er skb (m\<lparr>arp_queue := rest\<rparr>)"] assms Cons
      by (simp add: split_beta)
  qed
qed

lemma report_stops_exists:
  assumes H: "\<forall>s m. arp_queue (er s m) = arp_queue m"
  shows "\<exists>k\<le>length (arp_queue m). report_stops er m k"
proof (induction "arp_queue m" arbitrary: m)
  case Nil
  then have "report_stops er m 0" by (simp add: report_stops_0)
  then show ?case by blast
next
  case (Cons skb rest)
  show ?case
  proof (cases "nud_state m = NUD_FAILED")
    case False
    then have "report_stops er m 0" by (simp add: report_stops_0)
    then show ?thesis by blast
  next
    case True
    let ?m = "er skb (m\<lparr>arp_queue := rest\<rparr>)"
    have "rest = arp_queue ?m" using H by simp
    from Cons.hyps(1) [OF this] obtain k where k: "k \<le> length (arp_queue ?m)"
      "report_stops er ?m k" by blast
    have "report_stops er m (Suc k)"
      using report_stops_Suc [OF True Cons.hyps(2) [symmetric], of er k] k(2) by simp
    moreover have "Suc k \<le> length (arp_queue m)"
      using k(1) H Cons.hyps(2) [symmetric] by simp
    ultimately show ?thesis by blast
  qed
qed

lemma in_timer_probing: "x AND (NUD_INCOMPLETE OR NUD_PROBE) \<noteq> 0 \<Longrightarrow> x AND NUD_IN_TIMER \<noteq> 0"
  by (auto simp: NUD_IN_TIMER_def and_or_zero)

lemma release_trace_quiet:
  "arp_queue n = [] \<Longrightarrow> reported (snd (neigh_release n)) = [] \<and> freed (snd (neigh_release n)) = []
      \<and> arp_queue (fst (neigh_release n)) = []"
  by (auto simp: neigh_release_def neigh_destroy_def neigh_del_timer_def
      neigh_release_no_timer_def neigh_destroy_tail_def skb_queue_purge_def Let_def
      split: if_splits prod.splits)

lemma rearm_trace_quiet:
  "reported (snd (neigh_timer_rearm HZ j nx n)) = []" "freed (snd (neigh_timer_rearm HZ j nx n)) = []"
  by (simp_all add: neigh_timer_rearm_def Let_def)

lemma timer_fail_run:
  assumes st: "nud_state n AND (NUD_INCOMPLETE OR NUD_PROBE) \<noteq> 0"
    and pr: "neigh_max_probes p n \<le> probes n"
    and k: "report_stops er (n\<lparr>nud_state := NUD_FAILED\<rparr>) k"
  shows "neigh_timer_fail er p n
           = Some ((fst (report_run er k (n\<lparr>nud_state := NUD_FAILED\<rparr>)))\<lparr>arp_queue := []\<rparr>,
                   Ev_res_failed # map Ev_error_report (snd (report_run er k (n\<lparr>nud_state := NUD_FAILED\<rparr>)))
                     @ skb_queue_purge (arp_queue (fst (report_run er k (n\<lparr>nud_state := NUD_FAILED\<rparr>)))))"
  using st pr by (simp add: neigh_timer_fail_def report_loop_run [OF k])

lemma timer_fail_stops:
  assumes st: "nud_state n AND (NUD_INCOMPLETE OR NUD_PROBE) \<noteq> 0"
    and pr: "neigh_max_probes p n \<le> probes n"
    and r: "neigh_timer_fail er p n \<noteq> None"
  shows "\<exists>k. report_stops er (n\<lparr>nud_state := NUD_FAILED\<rparr>) k"
proof -
  have "neigh_report_loop er (n\<lparr>nud_state := NUD_FAILED\<rparr>) [Ev_res_failed] \<noteq> None"
    using st pr r by (auto simp: neigh_timer_fail_def split: option.splits)
  then obtain y where "neigh_report_loop er (n\<lparr>nud_state := NUD_FAILED\<rparr>) [Ev_res_failed] = Some y"
    by auto
  then show ?thesis by (rule report_loop_stops)
qed

text \<open>
  Claim C3: when the timer fires on an entry in \<open>INCOMPLETE\<close> or \<open>PROBE\<close> state whose
  probe counter has reached the maximum (\<open>ucast_probes\<close> for \<open>PROBE\<close>, the sum of the
  three probe counts, added as C \<open>int\<close>s, for \<open>INCOMPLETE\<close>), the state is set to
  \<open>FAILED\<close> and the queued packets are handed to \<open>error_report\<close> one at a time, oldest
  first, the state being tested before every packet. \<open>F\<close> is the entry as the loop first
  finds it. The callback is any function on the entry: it may change the state and the
  queue, as a callback that re-enters resolution does. If the loop leaves after \<open>k\<close>
  rounds, the handler returns, the packets reported are those of the \<open>k\<close> rounds, the
  packets then left on the queue are freed, the queue is left empty, and the state is the
  one the loop left on; and the handler returns only if the loop leaves. With a callback
  that leaves the queue alone the handler does return: the packets reported are the first
  \<open>k\<close> of the queue, those freed are the rest, and the loop stops before the end of the
  queue only because the entry is no longer \<open>FAILED\<close>. A callback that leaves the state
  alone as well sees every packet, and the entry ends in \<open>FAILED\<close>.
\<close>

theorem neigh_timer_handler_probe_budget:
  assumes r: "nud_state n AND NUD_REACHABLE = 0" and d: "nud_state n AND NUD_DELAY = 0"
    and st: "nud_state n AND (NUD_INCOMPLETE OR NUD_PROBE) \<noteq> 0"
    and pr: "(if nud_state n AND NUD_PROBE \<noteq> 0 then ucast_probes p
              else c_int_add (c_int_add (ucast_probes p) (app_probes p)) (mcast_probes p))
             \<le> probes n"
    and F: "F = n\<lparr>timer_pending := False, nud_state := NUD_FAILED\<rparr>"
  shows "(\<forall>k. report_stops er F k \<longrightarrow>
            (\<exists>n' tr. neigh_timer_handler HZ er p now n = Some (n', tr)
               \<and> reported tr = snd (report_run er k F)
               \<and> freed tr = arp_queue (fst (report_run er k F))
               \<and> arp_queue n' = []
               \<and> nud_state n' = nud_state (fst (report_run er k F))))
       \<and> (neigh_timer_handler HZ er p now n \<noteq> None \<longrightarrow> (\<exists>k. report_stops er F k))
       \<and> ((\<forall>s m. arp_queue (er s m) = arp_queue m) \<longrightarrow>
            (\<exists>n' tr k. neigh_timer_handler HZ er p now n = Some (n', tr)
               \<and> report_stops er F k \<and> k \<le> length (arp_queue n)
               \<and> reported tr = take k (arp_queue n) \<and> freed tr = drop k (arp_queue n)
               \<and> arp_queue n' = []
               \<and> (k < length (arp_queue n) \<longrightarrow> nud_state n' \<noteq> NUD_FAILED)
               \<and> ((\<forall>s m. nud_state (er s m) = nud_state m)
                    \<longrightarrow> k = length (arp_queue n) \<and> nud_state n' = NUD_FAILED)))"
proof -
  let ?m = "n\<lparr>timer_pending := False\<rparr>"
  let ?h = "neigh_timer_handler HZ er p now n"
  have Fm: "F = ?m\<lparr>nud_state := NUD_FAILED\<rparr>" using F by simp
  have it: "nud_state ?m AND NUD_IN_TIMER \<noteq> 0" using st by (simp add: in_timer_probing)
  have tr: "neigh_timer_transition HZ p now ?m = (?m, now + word_of_int (retrans_time p))"
    using r d by (simp add: neigh_timer_transition_def)
  have st': "nud_state ?m AND (NUD_INCOMPLETE OR NUD_PROBE) \<noteq> 0" using st by simp
  have pr': "neigh_max_probes p ?m \<le> probes ?m"
    using pr by (simp add: neigh_max_probes_def)
  have hd: "?h = (case neigh_timer_fail er p ?m of
                    None \<Rightarrow> None
                  | Some (n2, ev2) \<Rightarrow>
                      Some (fst (neigh_release (fst (neigh_timer_rearm HZ now
                                   (now + word_of_int (retrans_time p)) n2))),
                            ev2 @ snd (neigh_timer_rearm HZ now
                                   (now + word_of_int (retrans_time p)) n2)
                              @ snd (neigh_release (fst (neigh_timer_rearm HZ now
                                   (now + word_of_int (retrans_time p)) n2)))))"
    using it by (simp add: neigh_timer_handler_def Let_def tr split_beta
        cong: option.case_cong)
  have one: "\<exists>n' tr. ?h = Some (n', tr)
               \<and> reported tr = snd (report_run er k F)
               \<and> freed tr = arp_queue (fst (report_run er k F))
               \<and> arp_queue n' = []
               \<and> nud_state n' = nud_state (fst (report_run er k F))"
    if k: "report_stops er F k" for k
  proof -
    let ?n2 = "(fst (report_run er k F))\<lparr>arp_queue := []\<rparr>"
    let ?ev2 = "Ev_res_failed # map Ev_error_report (snd (report_run er k F))
                  @ skb_queue_purge (arp_queue (fst (report_run er k F)))"
    let ?r = "neigh_timer_rearm HZ now (now + word_of_int (retrans_time p)) ?n2"
    have tf: "neigh_timer_fail er p ?m = Some (?n2, ?ev2)"
      using timer_fail_run [OF st' pr', of er k] k unfolding Fm by simp
    have q3: "arp_queue (fst ?r) = []" by (simp add: timer_rearm_fields)
    have "?h = Some (fst (neigh_release (fst ?r)), ?ev2 @ snd ?r @ snd (neigh_release (fst ?r)))"
      unfolding hd tf by simp
    then show ?thesis
      using release_trace_quiet [OF q3]
      by (simp add: rearm_trace_quiet neigh_release_keeps timer_rearm_fields
          skb_queue_purge_def)
  qed
  have two: "\<exists>k. report_stops er F k" if "?h \<noteq> None"
  proof -
    have "neigh_timer_fail er p ?m \<noteq> None"
      using that unfolding hd by (auto split: option.splits)
    from timer_fail_stops [OF st' pr' this] show ?thesis unfolding Fm .
  qed
  have three: "\<exists>n' tr k. ?h = Some (n', tr)
               \<and> report_stops er F k \<and> k \<le> length (arp_queue n)
               \<and> reported tr = take k (arp_queue n) \<and> freed tr = drop k (arp_queue n)
               \<and> arp_queue n' = []
               \<and> (k < length (arp_queue n) \<longrightarrow> nud_state n' \<noteq> NUD_FAILED)
               \<and> ((\<forall>s m. nud_state (er s m) = nud_state m)
                    \<longrightarrow> k = length (arp_queue n) \<and> nud_state n' = NUD_FAILED)"
    if H: "\<forall>s m. arp_queue (er s m) = arp_queue m"
  proof -
    have qF: "arp_queue F = arp_queue n" "nud_state F = NUD_FAILED" using F by simp_all
    from report_stops_exists [OF H, of F] obtain k where
      k: "k \<le> length (arp_queue n)" "report_stops er F k"
      unfolding qF by blast
    from one [OF k(2)] obtain n' tr where o: "?h = Some (n', tr)"
      "reported tr = snd (report_run er k F)"
      "freed tr = arp_queue (fst (report_run er k F))"
      "arp_queue n' = []"
      "nud_state n' = nud_state (fst (report_run er k F))"
      by blast
    note kept = report_run_queue_kept [OF H, of k F, unfolded qF]
    have stop: "nud_state (fst (report_run er k F)) \<noteq> NUD_FAILED
                \<or> arp_queue (fst (report_run er k F)) = []"
      using k(2) unfolding report_stops_iff by simp
    have a: "k < length (arp_queue n) \<longrightarrow> nud_state n' \<noteq> NUD_FAILED"
      using stop kept o(5) by auto
    have b: "(\<forall>s m. nud_state (er s m) = nud_state m)
               \<longrightarrow> k = length (arp_queue n) \<and> nud_state n' = NUD_FAILED"
    proof
      assume S: "\<forall>s m. nud_state (er s m) = nud_state m"
      have "nud_state (fst (report_run er k F)) = NUD_FAILED"
        using report_run_state_kept [OF S, of k F] qF by simp
      then show "k = length (arp_queue n) \<and> nud_state n' = NUD_FAILED"
        using stop kept k(1) o(5) by auto
    qed
    have rep: "reported tr = take k (arp_queue n)" "freed tr = drop k (arp_queue n)"
      using o(2,3) kept by simp_all
    from o(1) k(2) k(1) rep o(4) a b show ?thesis by blast
  qed
  show ?thesis using one two three by blast
qed

theorem neigh_timer_handler_probe_budget_witness:
  "nud_state neigh_probed AND NUD_REACHABLE = 0
   \<and> nud_state neigh_probed AND NUD_DELAY = 0
   \<and> nud_state neigh_probed AND (NUD_INCOMPLETE OR NUD_PROBE) \<noteq> 0
   \<and> c_int_add (c_int_add (ucast_probes parms0) (app_probes parms0)) (mcast_probes parms0)
       \<le> probes neigh_probed
   \<and> report_stops (\<lambda>s m. m)
        (neigh_probed\<lparr>timer_pending := False, nud_state := NUD_FAILED\<rparr>) 2
   \<and> (\<exists>n' tr. neigh_timer_handler 100 (\<lambda>s m. m) parms0 50 neigh_probed = Some (n', tr)
        \<and> reported tr = [skb1, skb2] \<and> freed tr = [] \<and> arp_queue n' = []
        \<and> nud_state n' = NUD_FAILED)
   \<and> report_stops report_reenters
        (neigh_probed\<lparr>timer_pending := False, nud_state := NUD_FAILED\<rparr>) 1
   \<and> (\<exists>n' tr. neigh_timer_handler 100 report_reenters parms0 50 neigh_probed = Some (n', tr)
        \<and> reported tr = [skb1]
        \<and> freed tr = [skb2, \<lparr>skb_tag = 9, skb_dst_neighbour = None\<rparr>]
        \<and> arp_queue n' = [] \<and> nud_state n' = NUD_INCOMPLETE)"
proof -
  let ?F = "neigh_probed\<lparr>timer_pending := False, nud_state := NUD_FAILED\<rparr>"
  have h: "nud_state neigh_probed AND NUD_REACHABLE = 0"
    "nud_state neigh_probed AND NUD_DELAY = 0"
    "nud_state neigh_probed AND (NUD_INCOMPLETE OR NUD_PROBE) \<noteq> 0"
    by (simp_all add: neigh_probed_def neigh0_def nud_defs)
  have b: "c_int_add (c_int_add (ucast_probes parms0) (app_probes parms0)) (mcast_probes parms0)
       \<le> probes neigh_probed"
    by (simp add: c_int_add_def parms0_def neigh_probed_def neigh0_def)
  have b': "(if nud_state neigh_probed AND NUD_PROBE \<noteq> 0 then ucast_probes parms0
             else c_int_add (c_int_add (ucast_probes parms0) (app_probes parms0))
                    (mcast_probes parms0)) \<le> probes neigh_probed"
    using b by (simp add: neigh_probed_def neigh0_def nud_defs)
  have r2: "report_run (\<lambda>s m. m) 2 ?F = (?F\<lparr>arp_queue := []\<rparr>, [skb1, skb2])"
    by (simp add: numeral_2_eq_2 neigh_probed_def neigh0_def skb1_def skb2_def)
  have s2: "report_stops (\<lambda>s m. m) ?F 2"
    unfolding report_stops_iff r2
    by (auto simp: less_Suc_eq numeral_2_eq_2 neigh_probed_def neigh0_def)
  have r1: "report_run report_reenters 1 ?F
      = (?F\<lparr>nud_state := NUD_INCOMPLETE,
             arp_queue := [skb2, \<lparr>skb_tag = 9, skb_dst_neighbour = None\<rparr>]\<rparr>, [skb1])"
    by (simp add: neigh_probed_def neigh0_def skb1_def skb2_def report_reenters_def)
  have s1: "report_stops report_reenters ?F 1"
    unfolding report_stops_iff r1
    by (auto simp: neigh_probed_def neigh0_def nud_defs)
  note t = neigh_timer_handler_probe_budget [OF h b' refl, THEN conjunct1, rule_format]
  show ?thesis
    using h b s2 s1 t [OF s2, of 100 50] t [OF s1, of 100 50]
    unfolding r2 r1
    by (simp add: nud_defs)
qed

subsection \<open>The update\<close>
lemma xmit_stops_iff:
  "xmit_stops out m k \<longleftrightarrow>
     (\<forall>i<k. nud_state (fst (xmit_run out i m)) AND NUD_VALID \<noteq> 0
            \<and> arp_queue (fst (xmit_run out i m)) \<noteq> [])
     \<and> (nud_state (fst (xmit_run out k m)) AND NUD_VALID = 0
        \<or> arp_queue (fst (xmit_run out k m)) = [])"
  by (auto simp: xmit_stops_def list_all_iff)

lemma xmit_stops_0:
  "xmit_stops out m 0 \<longleftrightarrow> nud_state m AND NUD_VALID = 0 \<or> arp_queue m = []"
  by (simp add: xmit_stops_def)

lemma xmit_run_step:
  "arp_queue m = skb # rest \<Longrightarrow>
     fst (xmit_run out (Suc i) m)
       = fst (xmit_run out i (out (skb_dst_neighbour skb) skb (m\<lparr>arp_queue := rest\<rparr>)))
     \<and> snd (xmit_run out (Suc i) m)
         = skb # snd (xmit_run out i (out (skb_dst_neighbour skb) skb (m\<lparr>arp_queue := rest\<rparr>)))"
  by (simp add: split_beta)

lemma xmit_stops_Suc:
  assumes "nud_state m AND NUD_VALID \<noteq> 0" and q: "arp_queue m = skb # rest"
  shows "xmit_stops out m (Suc k)
           \<longleftrightarrow> xmit_stops out (out (skb_dst_neighbour skb) skb (m\<lparr>arp_queue := rest\<rparr>)) k"
proof -
  let ?m = "out (skb_dst_neighbour skb) skb (m\<lparr>arp_queue := rest\<rparr>)"
  let ?P = "\<lambda>i m. nud_state (fst (xmit_run out i m)) AND NUD_VALID \<noteq> 0
                 \<and> arp_queue (fst (xmit_run out i m)) \<noteq> []"
  have sh: "fst (xmit_run out (Suc i) m) = fst (xmit_run out i ?m)" for i
    using xmit_run_step [OF q] by simp
  have "(\<forall>i<Suc k. ?P i m) \<longleftrightarrow> ?P 0 m \<and> (\<forall>i<k. ?P (Suc i) m)"
    by (rule All_less_Suc2)
  also have "\<dots> \<longleftrightarrow> (\<forall>i<k. ?P i ?m)"
    using assms by (simp only: sh) simp
  finally show ?thesis
    unfolding xmit_stops_iff by (simp only: sh)
qed

lemma xmit_loop_run:
  "xmit_stops out m k \<Longrightarrow>
     neigh_xmit_loop out m tr
       = Some (fst (xmit_run out k m),
               tr @ map (\<lambda>s. Ev_output (skb_dst_neighbour s) s) (snd (xmit_run out k m)))"
proof (induction k arbitrary: m tr)
  case 0
  then show ?case
    by (subst neigh_xmit_loop.simps) (auto simp: xmit_stops_0 split: list.splits)
next
  case (Suc k)
  from Suc.prems have h0: "nud_state m AND NUD_VALID \<noteq> 0" "arp_queue m \<noteq> []"
    unfolding xmit_stops_iff by (auto dest: spec [of _ 0])
  then obtain skb rest where q: "arp_queue m = skb # rest" by (cases "arp_queue m") auto
  let ?m = "out (skb_dst_neighbour skb) skb (m\<lparr>arp_queue := rest\<rparr>)"
  have c: "xmit_stops out ?m k"
    using Suc.prems xmit_stops_Suc [OF h0(1) q] by simp
  have step: "neigh_xmit_loop out m tr
                = neigh_xmit_loop out ?m (tr @ [Ev_output (skb_dst_neighbour skb) skb])"
    using h0 q by (subst neigh_xmit_loop.simps) simp
  show ?case
    unfolding step Suc.IH [OF c]
    using xmit_run_step [OF q, of out k] by simp
qed

lemma xmit_loop_stops:
  assumes "neigh_xmit_loop out m tr = Some y"
  shows "\<exists>k. xmit_stops out m k"
proof (rule neigh_xmit_loop.raw_induct
    [where P = "\<lambda>out m tr y. \<exists>k. xmit_stops out m k", OF _ assms])
  fix loop :: "(nat option \<Rightarrow> sk_buff \<Rightarrow> neighbour \<Rightarrow> neighbour) \<Rightarrow> neighbour \<Rightarrow> event list
     \<Rightarrow> (neighbour \<times> event list) option"
  fix out m tr y
  assume ih: "\<And>out m tr y. loop out m tr = Some y \<Longrightarrow> \<exists>k. xmit_stops out m k"
    and eq: "(if nud_state m AND NUD_VALID \<noteq> 0 then
               (case arp_queue m of
                  [] \<Rightarrow> Some (m, tr)
                | skb # rest \<Rightarrow>
                    loop out (out (skb_dst_neighbour skb) skb (m\<lparr>arp_queue := rest\<rparr>))
                      (tr @ [Ev_output (skb_dst_neighbour skb) skb]))
             else Some (m, tr)) = Some y"
  show "\<exists>k. xmit_stops out m k"
  proof (cases "nud_state m AND NUD_VALID \<noteq> 0 \<and> arp_queue m \<noteq> []")
    case False
    then have "xmit_stops out m 0" by (auto simp: xmit_stops_0)
    then show ?thesis ..
  next
    case True
    then obtain skb rest where q: "arp_queue m = skb # rest" by (cases "arp_queue m") auto
    let ?m = "out (skb_dst_neighbour skb) skb (m\<lparr>arp_queue := rest\<rparr>)"
    have "loop out ?m (tr @ [Ev_output (skb_dst_neighbour skb) skb]) = Some y"
      using eq True q by simp
    from ih [OF this] obtain k where "xmit_stops out ?m k" ..
    then have "xmit_stops out m (Suc k)"
      using xmit_stops_Suc [of m skb rest out k] True q by simp
    then show ?thesis ..
  qed
qed

lemma xmit_run_queue_kept:
  assumes H: "\<forall>a s m. arp_queue (out a s m) = arp_queue m"
  shows "arp_queue (fst (xmit_run out i m)) = drop i (arp_queue m)
         \<and> snd (xmit_run out i m) = take i (arp_queue m)"
proof (induction i arbitrary: m)
  case 0
  then show ?case by simp
next
  case (Suc i)
  show ?case
  proof (cases "arp_queue m")
    case Nil
    then show ?thesis by simp
  next
    case (Cons skb rest)
    show ?thesis
      using Suc [of "out (skb_dst_neighbour skb) skb (m\<lparr>arp_queue := rest\<rparr>)"] H Cons
      by (simp add: split_beta)
  qed
qed

lemma xmit_run_state_kept:
  assumes "\<forall>a s m. nud_state (out a s m) = nud_state m"
  shows "nud_state (fst (xmit_run out i m)) = nud_state m"
proof (induction i arbitrary: m)
  case 0
  then show ?case by simp
next
  case (Suc i)
  show ?case
  proof (cases "arp_queue m")
    case Nil
    then show ?thesis by simp
  next
    case (Cons skb rest)
    show ?thesis
      using Suc [of "out (skb_dst_neighbour skb) skb (m\<lparr>arp_queue := rest\<rparr>)"] assms Cons
      by (simp add: split_beta)
  qed
qed

lemma xmit_stops_exists:
  assumes H: "\<forall>a s m. arp_queue (out a s m) = arp_queue m"
  shows "\<exists>k\<le>length (arp_queue m). xmit_stops out m k"
proof (induction "arp_queue m" arbitrary: m)
  case Nil
  then have "xmit_stops out m 0" by (simp add: xmit_stops_0)
  then show ?case by blast
next
  case (Cons skb rest)
  show ?case
  proof (cases "nud_state m AND NUD_VALID \<noteq> 0")
    case False
    then have "xmit_stops out m 0" by (simp add: xmit_stops_0)
    then show ?thesis by blast
  next
    case True
    let ?m = "out (skb_dst_neighbour skb) skb (m\<lparr>arp_queue := rest\<rparr>)"
    have "rest = arp_queue ?m" using H by simp
    from Cons.hyps(1) [OF this] obtain k where k: "k \<le> length (arp_queue ?m)"
      "xmit_stops out ?m k" by blast
    have "xmit_stops out m (Suc k)"
      using xmit_stops_Suc [OF True Cons.hyps(2) [symmetric], of out k] k(2) by simp
    moreover have "Suc k \<le> length (arp_queue m)"
      using k(1) H Cons.hyps(2) [symmetric] by simp
    ultimately show ?thesis by blast
  qed
qed

lemma transmitted_map [simp]:
  "transmitted (map (\<lambda>s. Ev_output (f s) s) q) = q" "transmitted (map Ev_kfree_skb q) = []"
  "freed (map (\<lambda>s. Ev_output (f s) s) q) = []"
  by (induction q) simp_all

lemma del_timer_held:
  assumes "timer_pending n \<longrightarrow> 2 \<le> refcnt n"
  shows "neigh_del_timer n = (0, n, []) \<or>
         neigh_del_timer n = (1, n\<lparr>timer_pending := False, refcnt := refcnt n - 1\<rparr>, [])"
  using assms by (auto simp: neigh_del_timer_def neigh_release_no_timer_def Let_def)


lemma update_out_fields [simp]:
  "nud_state (neigh_update_out fl b n) = nud_state n"
  "arp_queue (neigh_update_out fl b n) = arp_queue n"
  "ha (neigh_update_out fl b n) = ha n"
  by (simp_all add: neigh_update_out_def)

lemma update_state_held:
  assumes held: "timer_pending n \<longrightarrow> 2 \<le> refcnt n" and ne: "new \<noteq> old"
  shows "snd (neigh_update_state p j n new old) = []"
    "nud_state (fst (neigh_update_state p j n new old)) = new"
    "arp_queue (fst (neigh_update_state p j n new old)) = arp_queue n"
    "ha (fst (neigh_update_state p j n new old)) = ha n"
  using del_timer_held [OF held] ne
  by (auto simp: neigh_update_state_def Let_def add_timer_def neigh_hold_def)

lemma update_ha_fields [simp]:
  "nud_state (neigh_update_ha p addr_len j n ll new) = nud_state n"
  "arp_queue (neigh_update_ha p addr_len j n ll new) = arp_queue n"
  by (simp_all add: neigh_update_ha_def split: option.splits)

lemma commit_drain_shape:
  assumes ne: "new \<noteq> old" and old: "old AND NUD_VALID = 0"
    and held: "timer_pending n \<longrightarrow> 2 \<le> refcnt n"
  shows "\<exists>n3. nud_state n3 = new \<and> arp_queue n3 = arp_queue n
           \<and> neigh_update_commit out p addr_len j fl n ll new old isr
               = (case neigh_xmit_loop out n3 [] of
                    None \<Rightarrow> None
                  | Some (n4, tr) \<Rightarrow>
                      Some (0, neigh_update_out fl isr (n4\<lparr>arp_queue := []\<rparr>),
                            tr @ skb_queue_purge (arp_queue n4)))"
proof -
  let ?n2 = "neigh_update_ha p addr_len j (fst (neigh_update_state p j n new old)) ll new"
  let ?n3 = "if new AND NUD_CONNECTED \<noteq> 0 then neigh_connect ?n2 else neigh_suspect ?n2"
  have f3: "nud_state ?n3 = new" "arp_queue ?n3 = arp_queue n"
    using update_state_held [OF held ne, of p j] by simp_all
  have "neigh_update_commit out p addr_len j fl n ll new old isr
          = (case neigh_xmit_loop out ?n3 [] of
               None \<Rightarrow> None
             | Some (n4, tr) \<Rightarrow>
                 Some (0, neigh_update_out fl isr (n4\<lparr>arp_queue := []\<rparr>),
                       tr @ skb_queue_purge (arp_queue n4)))"
    using ne old update_state_held(1) [OF held ne, of p j]
    by (simp add: neigh_update_commit_def Let_def split_beta cong: option.case_cong)
  with f3 show ?thesis by blast
qed

lemma not_valid_not_locked: "x AND NUD_VALID = 0 \<Longrightarrow> x AND (NUD_NOARP OR NUD_PERMANENT) = 0"
  by (simp add: NUD_VALID_def and_or_zero)


text \<open>
  Claim C5: when \<open>neigh_update\<close> moves an entry from a state that is not \<open>VALID\<close> to
  one that is (an address is supplied, or the device needs none), the queued packets are
  sent through the output function one at a time, oldest first, the state being tested
  for \<open>VALID\<close> before every packet. \<open>S\<close> is the entry as the loop first finds it, in
  the new state and with the queue of the call. The output function is any function on
  the entry: it may change the state and the queue. If the loop leaves after \<open>k\<close>
  rounds, \<open>neigh_update\<close> returns 0, the packets sent are those of the \<open>k\<close> rounds, the
  packets then left on the queue are freed, the queue is left empty, and the state is the
  one the loop left on; and \<open>neigh_update\<close> returns only if the loop leaves. With an
  output function that leaves the queue alone it does return: the packets sent are the
  first \<open>k\<close> of the queue in queue order, those freed are the rest, and the loop stops
  before the end of the queue only because the entry is no longer \<open>VALID\<close>. An output
  function that leaves the state alone as well sends all \<open>N\<close> packets, and the entry ends
  in the new state. The caller holds a reference of its own, as the source requires.
\<close>

theorem neigh_update_fifo:
  assumes old: "nud_state n AND NUD_VALID = 0"
    and new: "new AND NUD_VALID \<noteq> 0"
    and ll: "lladdr \<noteq> None \<or> addr_len = 0"
    and held: "timer_pending n \<longrightarrow> 2 \<le> refcnt n"
  shows "\<exists>S. nud_state S = new \<and> arp_queue S = arp_queue n
     \<and> (\<forall>k. xmit_stops out S k \<longrightarrow>
          (\<exists>n' tr. neigh_update out p addr_len j n lladdr new fl = Some (0, n', tr)
             \<and> transmitted tr = snd (xmit_run out k S)
             \<and> freed tr = arp_queue (fst (xmit_run out k S))
             \<and> arp_queue n' = []
             \<and> nud_state n' = nud_state (fst (xmit_run out k S))))
     \<and> (neigh_update out p addr_len j n lladdr new fl \<noteq> None \<longrightarrow> (\<exists>k. xmit_stops out S k))
     \<and> ((\<forall>a s m. arp_queue (out a s m) = arp_queue m) \<longrightarrow>
          (\<exists>n' tr k. neigh_update out p addr_len j n lladdr new fl = Some (0, n', tr)
             \<and> xmit_stops out S k \<and> k \<le> length (arp_queue n)
             \<and> transmitted tr = take k (arp_queue n) \<and> freed tr = drop k (arp_queue n)
             \<and> arp_queue n' = []
             \<and> (k < length (arp_queue n) \<longrightarrow> nud_state n' AND NUD_VALID = 0)
             \<and> ((\<forall>a s m. nud_state (out a s m) = nud_state m)
                  \<longrightarrow> k = length (arp_queue n) \<and> nud_state n' = new)))"
proof -
  let ?old = "nud_state n"
  let ?u = "neigh_update out p addr_len j n lladdr new fl"
  let ?isr = "fl AND NEIGH_UPDATE_F_OVERRIDE_ISROUTER \<noteq> 0"
  let ?n1 = "(if new AND NUD_CONNECTED \<noteq> 0 then n\<lparr>confirmed := j\<rparr> else n)\<lparr>updated := j\<rparr>"
  have ne: "new \<noteq> ?old" using old new by auto
  have "\<exists>l. neigh_update_lladdr addr_len n ?old lladdr = Inr l"
    using ll old by (cases lladdr) (auto simp: neigh_update_lladdr_def)
  then obtain l where l: "neigh_update_lladdr addr_len n ?old lladdr = Inr l" ..
  have held1: "timer_pending ?n1 \<longrightarrow> 2 \<le> refcnt ?n1" using held by simp
  have q1: "arp_queue ?n1 = arp_queue n" by simp
  have u: "?u = neigh_update_commit out p addr_len j fl ?n1 l new ?old ?isr"
    using old new not_valid_not_locked [OF old]
    by (simp add: neigh_update_def l Let_def)
  from commit_drain_shape [OF ne old held1, of out p addr_len j fl l ?isr]
  obtain S where S: "nud_state S = new" "arp_queue S = arp_queue n"
    "?u = (case neigh_xmit_loop out S [] of
             None \<Rightarrow> None
           | Some (n4, tr) \<Rightarrow>
               Some (0, neigh_update_out fl ?isr (n4\<lparr>arp_queue := []\<rparr>),
                     tr @ skb_queue_purge (arp_queue n4)))"
    unfolding u q1 by blast
  have fo: "arp_queue (neigh_update_out fl b m) = arp_queue m"
    "nud_state (neigh_update_out fl b m) = nud_state m" for b m
    by (simp_all add: neigh_update_out_def)
  have one: "\<exists>n' tr. ?u = Some (0, n', tr)
             \<and> transmitted tr = snd (xmit_run out k S)
             \<and> freed tr = arp_queue (fst (xmit_run out k S))
             \<and> arp_queue n' = []
             \<and> nud_state n' = nud_state (fst (xmit_run out k S))"
    if k: "xmit_stops out S k" for k
    unfolding S(3) xmit_loop_run [OF k, of "[]"]
    by (simp add: fo skb_queue_purge_def)
  have two: "\<exists>k. xmit_stops out S k" if "?u \<noteq> None"
  proof -
    have "neigh_xmit_loop out S [] \<noteq> None"
      using that unfolding S(3) by (auto split: option.splits)
    then obtain y where "neigh_xmit_loop out S [] = Some y" by auto
    then show ?thesis by (rule xmit_loop_stops)
  qed
  have three: "\<exists>n' tr k. ?u = Some (0, n', tr)
             \<and> xmit_stops out S k \<and> k \<le> length (arp_queue n)
             \<and> transmitted tr = take k (arp_queue n) \<and> freed tr = drop k (arp_queue n)
             \<and> arp_queue n' = []
             \<and> (k < length (arp_queue n) \<longrightarrow> nud_state n' AND NUD_VALID = 0)
             \<and> ((\<forall>a s m. nud_state (out a s m) = nud_state m)
                  \<longrightarrow> k = length (arp_queue n) \<and> nud_state n' = new)"
    if H: "\<forall>a s m. arp_queue (out a s m) = arp_queue m"
  proof -
    from xmit_stops_exists [OF H, of S] obtain k where
      k: "k \<le> length (arp_queue n)" "xmit_stops out S k"
      unfolding S(2) by blast
    from one [OF k(2)] obtain n' tr where o: "?u = Some (0, n', tr)"
      "transmitted tr = snd (xmit_run out k S)"
      "freed tr = arp_queue (fst (xmit_run out k S))"
      "arp_queue n' = []"
      "nud_state n' = nud_state (fst (xmit_run out k S))"
      by blast
    note kept = xmit_run_queue_kept [OF H, of k S, unfolded S(2)]
    have stop: "nud_state (fst (xmit_run out k S)) AND NUD_VALID = 0
                \<or> arp_queue (fst (xmit_run out k S)) = []"
      using k(2) unfolding xmit_stops_iff by simp
    have a: "k < length (arp_queue n) \<longrightarrow> nud_state n' AND NUD_VALID = 0"
      using stop kept o(5) by auto
    have b: "(\<forall>a s m. nud_state (out a s m) = nud_state m)
               \<longrightarrow> k = length (arp_queue n) \<and> nud_state n' = new"
    proof
      assume T: "\<forall>a s m. nud_state (out a s m) = nud_state m"
      have "nud_state (fst (xmit_run out k S)) = new"
        using xmit_run_state_kept [OF T, of k S] S(1) by simp
      then show "k = length (arp_queue n) \<and> nud_state n' = new"
        using stop kept k(1) o(5) new by auto
    qed
    have rep: "transmitted tr = take k (arp_queue n)" "freed tr = drop k (arp_queue n)"
      using o(2,3) kept by simp_all
    from o(1) k(2) k(1) rep o(4) a b show ?thesis by blast
  qed
  from S(1,2) one two three show ?thesis by blast
qed

theorem neigh_update_fifo_witness:
  "nud_state neigh_waiting AND NUD_VALID = 0 \<and> NUD_REACHABLE AND NUD_VALID \<noteq> 0
   \<and> Some [1, 2, 3, 4, 5, 6 :: u8] \<noteq> None
   \<and> 2 \<le> refcnt neigh_waiting
   \<and> (\<exists>n' tr. neigh_update (\<lambda>a s m. m) parms0 6 100 neigh_waiting (Some [1, 2, 3, 4, 5, 6])
                  NUD_REACHABLE NEIGH_UPDATE_F_OVERRIDE = Some (0, n', tr)
         \<and> transmitted tr = [skb1, skb2, skb3] \<and> freed tr = [] \<and> arp_queue n' = []
         \<and> nud_state n' = NUD_REACHABLE)
   \<and> (\<exists>n' tr. neigh_update output_fails parms0 6 100 neigh_waiting (Some [1, 2, 3, 4, 5, 6])
                  NUD_REACHABLE NEIGH_UPDATE_F_OVERRIDE = Some (0, n', tr)
         \<and> transmitted tr = [skb1] \<and> freed tr = [skb2, skb3] \<and> arp_queue n' = []
         \<and> nud_state n' = NUD_FAILED)"
proof -
  have h: "nud_state neigh_waiting AND NUD_VALID = 0" "NUD_REACHABLE AND NUD_VALID \<noteq> 0"
    "Some [1, 2, 3, 4, 5, 6 :: u8] \<noteq> None \<or> (6 :: nat) = 0"
    "timer_pending neigh_waiting \<longrightarrow> 2 \<le> refcnt neigh_waiting"
    by (simp_all add: neigh_waiting_def neigh0_def nud_defs mask_defs)
  have q: "arp_queue neigh_waiting = [skb1, skb2, skb3]"
    by (simp add: neigh_waiting_def skb1_def skb2_def skb3_def)
  have v: "NUD_REACHABLE AND NUD_VALID \<noteq> 0" "NUD_FAILED AND NUD_VALID = 0"
    by (simp_all add: nud_defs mask_defs)
  have a: "\<exists>n' tr. neigh_update (\<lambda>a s m. m) parms0 6 100 neigh_waiting (Some [1, 2, 3, 4, 5, 6])
                  NUD_REACHABLE NEIGH_UPDATE_F_OVERRIDE = Some (0, n', tr)
         \<and> transmitted tr = [skb1, skb2, skb3] \<and> freed tr = [] \<and> arp_queue n' = []
         \<and> nud_state n' = NUD_REACHABLE"
  proof -
    from neigh_update_fifo [OF h, where out = "\<lambda>a s m. m" and p = parms0 and j = 100
        and fl = NEIGH_UPDATE_F_OVERRIDE]
    obtain S where S: "nud_state S = NUD_REACHABLE" "arp_queue S = arp_queue neigh_waiting"
      "\<forall>k. xmit_stops (\<lambda>a s m. m) S k \<longrightarrow>
          (\<exists>n' tr. neigh_update (\<lambda>a s m. m) parms0 6 100 neigh_waiting (Some [1, 2, 3, 4, 5, 6])
                      NUD_REACHABLE NEIGH_UPDATE_F_OVERRIDE = Some (0, n', tr)
             \<and> transmitted tr = snd (xmit_run (\<lambda>a s m. m) k S)
             \<and> freed tr = arp_queue (fst (xmit_run (\<lambda>a s m. m) k S))
             \<and> arp_queue n' = []
             \<and> nud_state n' = nud_state (fst (xmit_run (\<lambda>a s m. m) k S)))"
      by blast
    have r: "xmit_run (\<lambda>a s m. m) 3 S = (S\<lparr>arp_queue := []\<rparr>, [skb1, skb2, skb3])"
      using S(2) unfolding q by (simp add: numeral_3_eq_3)
    have "xmit_stops (\<lambda>a s m. m) S 3"
      using S(1,2) v unfolding q xmit_stops_iff r
      by (auto simp: less_Suc_eq numeral_3_eq_3)
    from S(3) [rule_format, OF this] show ?thesis
      unfolding r using S(1) by simp
  qed
  have b: "\<exists>n' tr. neigh_update output_fails parms0 6 100 neigh_waiting (Some [1, 2, 3, 4, 5, 6])
                  NUD_REACHABLE NEIGH_UPDATE_F_OVERRIDE = Some (0, n', tr)
         \<and> transmitted tr = [skb1] \<and> freed tr = [skb2, skb3] \<and> arp_queue n' = []
         \<and> nud_state n' = NUD_FAILED"
  proof -
    from neigh_update_fifo [OF h, where out = output_fails and p = parms0 and j = 100
        and fl = NEIGH_UPDATE_F_OVERRIDE]
    obtain S where S: "nud_state S = NUD_REACHABLE" "arp_queue S = arp_queue neigh_waiting"
      "\<forall>k. xmit_stops output_fails S k \<longrightarrow>
          (\<exists>n' tr. neigh_update output_fails parms0 6 100 neigh_waiting (Some [1, 2, 3, 4, 5, 6])
                      NUD_REACHABLE NEIGH_UPDATE_F_OVERRIDE = Some (0, n', tr)
             \<and> transmitted tr = snd (xmit_run output_fails k S)
             \<and> freed tr = arp_queue (fst (xmit_run output_fails k S))
             \<and> arp_queue n' = []
             \<and> nud_state n' = nud_state (fst (xmit_run output_fails k S)))"
      by blast
    have r: "xmit_run output_fails 1 S
               = (S\<lparr>arp_queue := [skb2, skb3], nud_state := NUD_FAILED\<rparr>, [skb1])"
      using S(2) unfolding q by (simp add: output_fails_def skb1_def)
    have "xmit_stops output_fails S 1"
      using S(1) S(2) [unfolded q] v unfolding xmit_stops_iff r by simp
    from S(3) [rule_format, OF this] show ?thesis
      unfolding r by simp
  qed
  show ?thesis
    using h(1,2) a b by (simp add: neigh_waiting_def neigh0_def)
qed

lemma update_state_fields:
  "nud_state (fst (neigh_update_state p j n new old)) = (if new \<noteq> old then new else nud_state n)"
  "ha (fst (neigh_update_state p j n new old)) = ha n"
  by (auto simp: neigh_update_state_def neigh_del_timer_def neigh_release_no_timer_def
      neigh_destroy_tail_def Let_def add_timer_def neigh_hold_def split: if_splits)

lemma update_state_same: "neigh_update_state p j n old old = (n, [])"
  by (simp add: neigh_update_state_def)

lemma stale_not_connected: "x AND NUD_CONNECTED \<noteq> 0 \<Longrightarrow> x \<noteq> NUD_STALE"
  by (auto simp: nud_defs NUD_CONNECTED_def)

lemma connected_valid: "x AND NUD_CONNECTED \<noteq> 0 \<Longrightarrow> x AND NUD_VALID \<noteq> 0"
  by (auto simp: NUD_CONNECTED_def NUD_VALID_def and_or_zero)

lemma suspect_connect_ha:
  "ha (neigh_suspect n) = ha n" "ha (neigh_connect n) = ha n"
  by (simp_all add: neigh_suspect_def neigh_connect_def)

lemma weak_override_demotes:
  assumes adm: "fl AND NEIGH_UPDATE_F_ADMIN \<noteq> 0 \<or> nud_state n AND (NUD_NOARP OR NUD_PERMANENT) = 0"
    and new: "new AND NUD_VALID \<noteq> 0"
    and conn: "nud_state n AND NUD_CONNECTED \<noteq> 0"
    and diff: "take addr_len b \<noteq> take addr_len (ha n)"
    and nov: "fl AND NEIGH_UPDATE_F_OVERRIDE = 0"
    and weak: "fl AND NEIGH_UPDATE_F_WEAK_OVERRIDE \<noteq> 0"
  shows "\<exists>n' tr. neigh_update out p addr_len j n (Some b) new fl = Some (0, n', tr)
           \<and> ha n' = ha n \<and> nud_state n' = NUD_STALE \<and> fast_path_off n' \<and> transmitted tr = []"
proof -
  let ?n1 = "(if new AND NUD_CONNECTED \<noteq> 0 then n\<lparr>confirmed := j\<rparr> else n)\<lparr>updated := j\<rparr>"
  have al: "addr_len \<noteq> 0" using diff by (cases "addr_len = 0") simp_all
  have l: "neigh_update_lladdr addr_len n (nud_state n) (Some b) = Inr (Some b)"
    using al diff by (simp add: neigh_update_lladdr_def)
  have ne: "NUD_STALE \<noteq> nud_state n" using stale_not_connected [OF conn] by simp
  have up: "neigh_update out p addr_len j n (Some b) new fl
          = neigh_update_commit out p addr_len j fl ?n1 None NUD_STALE (nud_state n) False"
    using adm new conn nov weak connected_valid [OF conn]
    by (auto simp: neigh_update_def l Let_def)
  let ?s = "neigh_update_state p j ?n1 NUD_STALE (nud_state n)"
  have cm: "neigh_update_commit out p addr_len j fl ?n1 None NUD_STALE (nud_state n) False
          = Some (0, neigh_suspect (fst ?s), snd ?s)"
    using ne connected_valid [OF conn]
    by (simp add: neigh_update_commit_def Let_def split_beta neigh_update_ha_def
        neigh_update_out_def nud_defs mask_defs)
  have tr: "transmitted (snd ?s) = []"
    by (auto simp: neigh_update_state_def neigh_del_timer_def neigh_release_no_timer_def
      neigh_destroy_tail_def Let_def skb_queue_purge_def split: if_splits)
  show ?thesis
    unfolding up cm using ne tr
    by (simp add: fast_path_off_suspect update_state_fields suspect_connect_ha)
qed

lemma same_address_keeps_state:
  assumes val: "nud_state n AND NUD_VALID \<noteq> 0"
    and same: "take addr_len b = take addr_len (ha n)"
    and keep: "fl AND NEIGH_UPDATE_F_WEAK_OVERRIDE \<noteq> 0 \<or> nud_state n AND NUD_CONNECTED \<noteq> 0"
  shows "neigh_update out p addr_len j n (Some b) NUD_STALE fl
           = (if fl AND NEIGH_UPDATE_F_ADMIN = 0 \<and> nud_state n AND (NUD_NOARP OR NUD_PERMANENT) \<noteq> 0
              then Some (- EPERM, n, [])
              else Some (0, neigh_update_out fl (fl AND NEIGH_UPDATE_F_OVERRIDE_ISROUTER \<noteq> 0)
                              (n\<lparr>updated := j\<rparr>), []))"
proof -
  have l: "neigh_update_lladdr addr_len n (nud_state n) (Some b) = Inr None"
    using val same by (simp add: neigh_update_lladdr_def)
  have sv: "NUD_STALE AND NUD_VALID \<noteq> 0" "NUD_STALE AND NUD_CONNECTED = 0"
    by (simp_all add: nud_defs mask_defs)
  have cm: "neigh_update_commit out p addr_len j fl (n\<lparr>updated := j\<rparr>) None (nud_state n) (nud_state n) isr
      = Some (0, neigh_update_out fl isr (n\<lparr>updated := j\<rparr>), [])" for isr
    by (simp add: neigh_update_commit_def update_state_same neigh_update_ha_def)
  show ?thesis
    using val keep sv
    by (auto simp: neigh_update_def l Let_def cm)
qed


text \<open>
  Claim C8, as the code has it. For an entry whose old state is \<open>CONNECTED\<close> (hence
  \<open>VALID\<close>): when the update is admitted (it is administrative, or the entry is neither
  \<open>NOARP\<close> nor \<open>PERMANENT\<close>), the new state is a \<open>VALID\<close> one, the proposed address
  differs from the cached one, \<open>OVERRIDE\<close> is absent and \<open>WEAK_OVERRIDE\<close> is set, the
  cached address is kept, the state becomes \<open>STALE\<close>, the fast path is suspended and
  nothing is sent. For an entry whose old state is \<open>VALID\<close>: when the proposed address
  equals the cached one, the new state is \<open>STALE\<close>, and \<open>WEAK_OVERRIDE\<close> is set or the
  entry was \<open>CONNECTED\<close>, the entry keeps its state, address, queue and timer, and
  nothing is sent or freed.
\<close>

theorem neigh_update_weak_override:
  "(nud_state n AND NUD_CONNECTED \<noteq> 0
      \<and> take addr_len b \<noteq> take addr_len (ha n)
      \<and> fl AND NEIGH_UPDATE_F_OVERRIDE = 0 \<and> fl AND NEIGH_UPDATE_F_WEAK_OVERRIDE \<noteq> 0
      \<and> new AND NUD_VALID \<noteq> 0
      \<and> (fl AND NEIGH_UPDATE_F_ADMIN \<noteq> 0 \<or> nud_state n AND (NUD_NOARP OR NUD_PERMANENT) = 0)
     \<longrightarrow> (\<exists>n' tr. neigh_update out p addr_len j n (Some b) new fl = Some (0, n', tr)
            \<and> ha n' = ha n \<and> nud_state n' = NUD_STALE \<and> fast_path_off n'
            \<and> transmitted tr = []))
   \<and> (nud_state n AND NUD_VALID \<noteq> 0
      \<and> take addr_len b = take addr_len (ha n)
      \<and> (fl AND NEIGH_UPDATE_F_WEAK_OVERRIDE \<noteq> 0 \<or> nud_state n AND NUD_CONNECTED \<noteq> 0)
     \<longrightarrow> (\<exists>rc n'. neigh_update out p addr_len j n (Some b) NUD_STALE fl = Some (rc, n', [])
            \<and> nud_state n' = nud_state n \<and> ha n' = ha n \<and> arp_queue n' = arp_queue n
            \<and> timer_pending n' = timer_pending n \<and> timer_expires n' = timer_expires n))"
proof (intro conjI impI)
  assume "nud_state n AND NUD_CONNECTED \<noteq> 0
      \<and> take addr_len b \<noteq> take addr_len (ha n)
      \<and> fl AND NEIGH_UPDATE_F_OVERRIDE = 0 \<and> fl AND NEIGH_UPDATE_F_WEAK_OVERRIDE \<noteq> 0
      \<and> new AND NUD_VALID \<noteq> 0
      \<and> (fl AND NEIGH_UPDATE_F_ADMIN \<noteq> 0 \<or> nud_state n AND (NUD_NOARP OR NUD_PERMANENT) = 0)"
  then show "\<exists>n' tr. neigh_update out p addr_len j n (Some b) new fl = Some (0, n', tr)
            \<and> ha n' = ha n \<and> nud_state n' = NUD_STALE \<and> fast_path_off n'
            \<and> transmitted tr = []"
    using weak_override_demotes [of fl n new addr_len b out p j] by blast
next
  assume a: "nud_state n AND NUD_VALID \<noteq> 0
      \<and> take addr_len b = take addr_len (ha n)
      \<and> (fl AND NEIGH_UPDATE_F_WEAK_OVERRIDE \<noteq> 0 \<or> nud_state n AND NUD_CONNECTED \<noteq> 0)"
  show "\<exists>rc n'. neigh_update out p addr_len j n (Some b) NUD_STALE fl = Some (rc, n', [])
            \<and> nud_state n' = nud_state n \<and> ha n' = ha n \<and> arp_queue n' = arp_queue n
            \<and> timer_pending n' = timer_pending n \<and> timer_expires n' = timer_expires n"
    using a same_address_keeps_state [of n addr_len b fl out p j]
    by (auto simp: neigh_update_out_def)
qed

theorem neigh_update_weak_override_witness:
  "nud_state neigh_resolved AND NUD_CONNECTED \<noteq> 0
   \<and> take 6 [9, 9, 9, 9, 9, 9] \<noteq> take 6 (ha neigh_resolved)
   \<and> NEIGH_UPDATE_F_WEAK_OVERRIDE AND NEIGH_UPDATE_F_OVERRIDE = 0
   \<and> NEIGH_UPDATE_F_WEAK_OVERRIDE AND NEIGH_UPDATE_F_WEAK_OVERRIDE \<noteq> 0
   \<and> NUD_REACHABLE AND NUD_VALID \<noteq> 0
   \<and> nud_state neigh_resolved AND (NUD_NOARP OR NUD_PERMANENT) = 0
   \<and> (\<exists>n' tr. neigh_update (\<lambda>a s m. m) parms0 6 100 neigh_resolved (Some [9, 9, 9, 9, 9, 9])
                  NUD_REACHABLE NEIGH_UPDATE_F_WEAK_OVERRIDE = Some (0, n', tr)
         \<and> ha n' = [1, 2, 3, 4, 5, 6] \<and> nud_state n' = NUD_STALE \<and> fast_path_off n')
   \<and> nud_state neigh_resolved AND NUD_VALID \<noteq> 0
   \<and> take 6 [1, 2, 3, 4, 5, 6] = take 6 (ha neigh_resolved)
   \<and> (\<exists>rc n'. neigh_update (\<lambda>a s m. m) parms0 6 100 neigh_resolved (Some [1, 2, 3, 4, 5, 6])
                  NUD_STALE 0 = Some (rc, n', [])
         \<and> nud_state n' = NUD_REACHABLE \<and> ha n' = [1, 2, 3, 4, 5, 6])"
  using neigh_update_weak_override [of neigh_resolved 6 "[9, 9, 9, 9, 9, 9]"
      NEIGH_UPDATE_F_WEAK_OVERRIDE NUD_REACHABLE "\<lambda>a s m. m" parms0 100]
    neigh_update_weak_override [of neigh_resolved 6 "[1, 2, 3, 4, 5, 6]" 0 NUD_STALE
      "\<lambda>a s m. m" parms0 100]
  by (auto simp: neigh_resolved_def neigh0_def nud_defs mask_defs
      NEIGH_UPDATE_F_WEAK_OVERRIDE_def NEIGH_UPDATE_F_OVERRIDE_def)

text \<open>
  Claim C8 as the spec states it fails: a \<open>PERMANENT\<close> entry is \<open>VALID\<close> and
  \<open>CONNECTED\<close>, and an update without \<open>ADMIN\<close> that proposes another address with
  \<open>WEAK_OVERRIDE\<close> and without \<open>OVERRIDE\<close> is rejected with \<open>-EPERM\<close>: the entry
  stays \<open>PERMANENT\<close> and is not demoted to \<open>STALE\<close>.
\<close>

theorem neigh_update_weak_override_permanent:
  "nud_state neigh_permanent AND NUD_VALID \<noteq> 0
   \<and> nud_state neigh_permanent AND NUD_CONNECTED \<noteq> 0
   \<and> take 6 [9, 9, 9, 9, 9, 9] \<noteq> take 6 (ha neigh_permanent)
   \<and> NEIGH_UPDATE_F_WEAK_OVERRIDE AND NEIGH_UPDATE_F_OVERRIDE = 0
   \<and> neigh_update (\<lambda>a s m. m) parms0 6 100 neigh_permanent (Some [9, 9, 9, 9, 9, 9])
        NUD_REACHABLE NEIGH_UPDATE_F_WEAK_OVERRIDE = Some (- EPERM, neigh_permanent, [])
   \<and> nud_state neigh_permanent \<noteq> NUD_STALE"
  by (simp add: neigh_update_def neigh_permanent_def neigh0_def nud_defs mask_defs
      NEIGH_UPDATE_F_WEAK_OVERRIDE_def NEIGH_UPDATE_F_OVERRIDE_def NEIGH_UPDATE_F_ADMIN_def)


subsection \<open>Garbage collection\<close>

lemma bucket_indices_eval:
  "bucket_indices = [0, 1, 2, 3, 4, 5, 6, 7, 8, 9, 10, 11, 12, 13, 14, 15, 16, 17, 18, 19, 20,
     21, 22, 23, 24, 25, 26, 27, 28, 29, 30, 31]"
  by (simp add: bucket_indices_def NEIGH_HASHMASK_def upt_rec)

lemma tbl_neigh_release_frame [simp]:
  "hash_buckets (tbl_neigh_release a t) = hash_buckets t"
  "phash_buckets (tbl_neigh_release a t) = phash_buckets t"
  "parms_at (tbl_neigh_release a t) = parms_at t"
  "key_len (tbl_neigh_release a t) = key_len t"
  "gc_thresh3 (tbl_neigh_release a t) = gc_thresh3 t"
  "neigh_at (tbl_neigh_release a t) = (neigh_at t)(a := fst (neigh_release (neigh_at t a)))"
  by (simp_all add: tbl_neigh_release_def split_beta Let_def)

lemma neigh_release_refcnt:
  "refcnt n = 1 \<Longrightarrow> refcnt (fst (neigh_release n)) \<noteq> 1"
  using neigh_release_cases [of n] by auto

lemma forced_gc_chain_safe:
  assumes "neigh_forced_gc_chain j as t = (ch, t', s)" and "gc_rel t0 t"
  shows "gc_rel t0 t' \<and> hash_buckets t' = hash_buckets t
           \<and> (\<forall>a\<in>set as. a \<notin> set ch \<longrightarrow> forced_gc_may_discard j t0 a)"
  using assms
proof (induction as arbitrary: t ch t' s)
  case Nil
  then show ?case by simp
next
  case (Cons a as)
  let ?n = "neigh_at t a"
  let ?c = "refcnt ?n = 1 \<and> nud_state ?n AND NUD_PERMANENT = 0
         \<and> (nud_state ?n \<noteq> NUD_INCOMPLETE
             \<or> time_after j (used ?n + word_of_int (retrans_time (parms_at t (parms ?n)))))"
  show ?case
  proof (cases ?c)
    case True
    let ?t1 = "tbl_neigh_release a (t\<lparr>neigh_at := (neigh_at t)(a := ?n\<lparr>dead := True\<rparr>)\<rparr>)"
    obtain ch1 t2 s1 where r: "neigh_forced_gc_chain j as ?t1 = (ch1, t2, s1)"
      by (cases "neigh_forced_gc_chain j as ?t1") auto
    have eq: "ch = ch1" "t' = t2"
      using Cons.prems(1) True r by (simp_all add: Let_def)
    have same: "neigh_at t a = neigh_at t0 a" "parms_at t = parms_at t0"
      using Cons.prems(2) True by (auto simp: gc_rel_def)
    have disc: "forced_gc_may_discard j t0 a"
      using True same by (auto simp: forced_gc_may_discard_def)
    have "refcnt (fst (neigh_release (?n\<lparr>dead := True\<rparr>))) \<noteq> 1"
      using True by (intro neigh_release_refcnt) simp
    then have rel1: "gc_rel t0 ?t1"
      using Cons.prems(2) by (auto simp: gc_rel_def)
    from Cons.IH [OF r rel1] disc show ?thesis
      unfolding eq by auto
  next
    case False
    obtain ch1 t2 s1 where r: "neigh_forced_gc_chain j as t = (ch1, t2, s1)"
      by (cases "neigh_forced_gc_chain j as t") auto
    have eq: "ch = a # ch1" "t' = t2"
      using Cons.prems(1) False r by (auto simp: Let_def)
    from Cons.IH [OF r Cons.prems(2)] show ?thesis
      unfolding eq by auto
  qed
qed

lemma forced_gc_buckets_safe:
  assumes "neigh_forced_gc_buckets j is t = (t', s)" and "gc_rel t0 t"
  shows "gc_rel t0 t'
           \<and> (\<forall>i a. a \<in> set (hash_buckets t i) \<and> a \<notin> set (hash_buckets t' i)
                 \<longrightarrow> forced_gc_may_discard j t0 a)"
  using assms
proof (induction "is" arbitrary: t t' s)
  case Nil
  then show ?case by simp
next
  case (Cons i "is")
  obtain ch t1 s1 where c: "neigh_forced_gc_chain j (hash_buckets t i) t = (ch, t1, s1)"
    by (cases "neigh_forced_gc_chain j (hash_buckets t i) t") auto
  let ?t1 = "t1\<lparr>hash_buckets := (hash_buckets t1)(i := ch)\<rparr>"
  obtain t2 s2 where b: "neigh_forced_gc_buckets j is ?t1 = (t2, s2)"
    by (cases "neigh_forced_gc_buckets j is ?t1") auto
  have eq: "t' = t2" using Cons.prems(1) c b by simp
  from forced_gc_chain_safe [OF c Cons.prems(2)]
  have ch: "gc_rel t0 t1" "hash_buckets t1 = hash_buckets t"
    "\<forall>a\<in>set (hash_buckets t i). a \<notin> set ch \<longrightarrow> forced_gc_may_discard j t0 a"
    by auto
  have rel1: "gc_rel t0 ?t1" using ch(1) by (simp add: gc_rel_def)
  from Cons.IH [OF b rel1]
  have ih: "gc_rel t0 t2"
    "\<forall>k a. a \<in> set (hash_buckets ?t1 k) \<and> a \<notin> set (hash_buckets t2 k)
        \<longrightarrow> forced_gc_may_discard j t0 a"
    by auto
  show ?case
    unfolding eq
  proof (intro conjI allI impI)
    show "gc_rel t0 t2" by (rule ih(1))
  next
    fix k a
    assume a: "a \<in> set (hash_buckets t k) \<and> a \<notin> set (hash_buckets t2 k)"
    show "forced_gc_may_discard j t0 a"
    proof (cases "a \<in> set (hash_buckets ?t1 k)")
      case True
      with a ih(2) show ?thesis by blast
    next
      case False
      then have "k = i" using a ch(2) by (auto split: if_splits)
      with False a ch(3) show ?thesis by auto
    qed
  qed
qed

lemma gc_rel_refl: "gc_rel t t"
  by (simp add: gc_rel_def)

lemma linked_iff: "a \<in> set (linked t) \<longleftrightarrow> (\<exists>i\<in>set bucket_indices. a \<in> set (hash_buckets t i))"
  by (auto simp: linked_def)

lemma forced_gc_safe:
  assumes "a \<in> set (linked t)" and "a \<notin> set (linked (snd (neigh_forced_gc j t)))"
  shows "forced_gc_may_discard j t a"
proof -
  obtain t1 s where b: "neigh_forced_gc_buckets j bucket_indices t = (t1, s)"
    by (cases "neigh_forced_gc_buckets j bucket_indices t") auto
  have hb: "hash_buckets (snd (neigh_forced_gc j t)) = hash_buckets t1"
    by (simp add: neigh_forced_gc_def b)
  from assms(1) obtain i where i: "i \<in> set bucket_indices" "a \<in> set (hash_buckets t i)"
    by (auto simp: linked_iff)
  have "a \<notin> set (hash_buckets t1 i)"
    using assms(2) i(1) hb by (auto simp: linked_iff)
  with forced_gc_buckets_safe [OF b gc_rel_refl] i(2) show ?thesis by blast
qed

lemma not_in_timer_not_incomplete:
  "x AND (NUD_PERMANENT OR NUD_IN_TIMER) = 0 \<Longrightarrow> x AND NUD_PERMANENT = 0 \<and> x \<noteq> NUD_INCOMPLETE"
proof -
  assume "x AND (NUD_PERMANENT OR NUD_IN_TIMER) = 0"
  then have z: "x AND NUD_PERMANENT = 0" "x AND NUD_INCOMPLETE = 0"
    by (simp_all add: NUD_IN_TIMER_def and_or_zero)
  have "NUD_INCOMPLETE AND NUD_INCOMPLETE \<noteq> 0" by (simp add: nud_defs)
  with z show ?thesis by auto
qed

lemma periodic_chain_safe:
  assumes "neigh_periodic_chain now as t = (ch, t')" and "sweep_rel t0 t"
  shows "sweep_rel t0 t' \<and> hash_buckets t' = hash_buckets t
           \<and> (\<forall>a\<in>set as. a \<notin> set ch \<longrightarrow> periodic_may_discard t0 a)"
  using assms
proof (induction as arbitrary: t ch t')
  case Nil
  then show ?case by simp
next
  case (Cons a as)
  let ?n = "neigh_at t a"
  show ?case
  proof (cases "nud_state ?n AND (NUD_PERMANENT OR NUD_IN_TIMER) \<noteq> 0")
    case True
    obtain ch1 t2 where r: "neigh_periodic_chain now as t = (ch1, t2)"
      by (cases "neigh_periodic_chain now as t") auto
    have eq: "ch = a # ch1" "t' = t2"
      using Cons.prems(1) True r by (auto simp: Let_def)
    from Cons.IH [OF r Cons.prems(2)] show ?thesis
      unfolding eq by auto
  next
    case nt: False
    let ?n1 = "if time_before (used ?n) (confirmed ?n) then ?n\<lparr>used := confirmed ?n\<rparr> else ?n"
    let ?c = "refcnt ?n1 = 1
            \<and> (nud_state ?n = NUD_FAILED
                \<or> time_after now (used ?n1 + word_of_int (gc_staletime (parms_at t (parms ?n1)))))"
    have f1: "refcnt ?n1 = refcnt ?n" "nud_state ?n1 = nud_state ?n" by simp_all
    show ?thesis
    proof (cases ?c)
      case True
      let ?t1 = "tbl_neigh_release a (t\<lparr>neigh_at := (neigh_at t)(a := ?n1\<lparr>dead := True\<rparr>)\<rparr>)"
      have r: "neigh_periodic_chain now as ?t1 = (ch, t')"
        using Cons.prems(1) nt True by (simp add: Let_def)
      have rc: "refcnt ?n = 1" using True f1 by simp
      moreover have "(refcnt ?n = refcnt (neigh_at t0 a)
            \<and> nud_state ?n = nud_state (neigh_at t0 a)) \<or> refcnt ?n \<noteq> 1"
        using Cons.prems(2) by (simp add: sweep_rel_def)
      ultimately have same: "refcnt ?n = refcnt (neigh_at t0 a)"
        "nud_state ?n = nud_state (neigh_at t0 a)"
        by simp_all
      have disc: "periodic_may_discard t0 a"
        using rc same not_in_timer_not_incomplete [of "nud_state ?n"] nt
        by (auto simp: periodic_may_discard_def)
      have "refcnt (fst (neigh_release (?n1\<lparr>dead := True\<rparr>))) \<noteq> 1"
        using rc by (intro neigh_release_refcnt) simp
      then have rel1: "sweep_rel t0 ?t1"
        using Cons.prems(2) by (auto simp: sweep_rel_def)
      from Cons.IH [OF r rel1] disc show ?thesis by auto
    next
      case False
      let ?t1 = "t\<lparr>neigh_at := (neigh_at t)(a := ?n1)\<rparr>"
      obtain ch1 t2 where r: "neigh_periodic_chain now as ?t1 = (ch1, t2)"
        by (cases "neigh_periodic_chain now as ?t1") auto
      have eq: "ch = a # ch1" "t' = t2"
        using Cons.prems(1) nt False r by (auto simp: Let_def)
      have rel1: "sweep_rel t0 ?t1"
        using Cons.prems(2) by (auto simp: sweep_rel_def)
      from Cons.IH [OF r rel1] show ?thesis
        unfolding eq by auto
    qed
  qed
qed

lemma periodic_buckets_safe:
  assumes "neigh_periodic_buckets now is t = t'" and "sweep_rel t0 t"
  shows "sweep_rel t0 t'
           \<and> (\<forall>i a. a \<in> set (hash_buckets t i) \<and> a \<notin> set (hash_buckets t' i)
                 \<longrightarrow> periodic_may_discard t0 a)"
  using assms
proof (induction "is" arbitrary: t t')
  case Nil
  then show ?case by simp
next
  case (Cons i "is")
  obtain ch t1 where c: "neigh_periodic_chain now (hash_buckets t i) t = (ch, t1)"
    by (cases "neigh_periodic_chain now (hash_buckets t i) t") auto
  let ?t1 = "t1\<lparr>hash_buckets := (hash_buckets t1)(i := ch)\<rparr>"
  have b: "neigh_periodic_buckets now is ?t1 = t'" using Cons.prems(1) c by simp
  from periodic_chain_safe [OF c Cons.prems(2)]
  have ch: "sweep_rel t0 t1" "hash_buckets t1 = hash_buckets t"
    "\<forall>a\<in>set (hash_buckets t i). a \<notin> set ch \<longrightarrow> periodic_may_discard t0 a"
    by auto
  have rel1: "sweep_rel t0 ?t1" using ch(1) by (simp add: sweep_rel_def)
  from Cons.IH [OF b rel1]
  have ih: "sweep_rel t0 t'"
    "\<forall>k a. a \<in> set (hash_buckets ?t1 k) \<and> a \<notin> set (hash_buckets t' k)
        \<longrightarrow> periodic_may_discard t0 a"
    by auto
  show ?case
  proof (intro conjI allI impI)
    show "sweep_rel t0 t'" by (rule ih(1))
  next
    fix k a
    assume a: "a \<in> set (hash_buckets t k) \<and> a \<notin> set (hash_buckets t' k)"
    show "periodic_may_discard t0 a"
    proof (cases "a \<in> set (hash_buckets ?t1 k)")
      case True
      with a ih(2) show ?thesis by blast
    next
      case False
      then have "k = i" using a ch(2) by (auto split: if_splits)
      with False a ch(3) show ?thesis by auto
    qed
  qed
qed

lemma periodic_safe:
  assumes "neigh_periodic_timer HZ rnd now t = Some t'"
    and "a \<in> set (linked t)" and "a \<notin> set (linked t')"
  shows "periodic_may_discard t a"
proof -
  have "\<exists>t1. neigh_at t1 = neigh_at t \<and> hash_buckets t1 = hash_buckets t
          \<and> hash_buckets t' = hash_buckets (neigh_periodic_buckets now bucket_indices t1)"
  proof (cases "time_after now (last_rand t + word_of_int (300 * HZ))")
    case True
    then obtain pm where
      "t' = (neigh_periodic_buckets now bucket_indices (t\<lparr>last_rand := now, parms_at := pm\<rparr>))
              \<lparr>gc_timer_expires := now + word_of_int (gc_interval t)\<rparr>"
      using assms(1) by (auto simp: neigh_periodic_timer_def split: option.splits)
    then show ?thesis
      by (intro exI [of _ "t\<lparr>last_rand := now, parms_at := pm\<rparr>"]) simp
  next
    case False
    then have
      "t' = (neigh_periodic_buckets now bucket_indices t)
              \<lparr>gc_timer_expires := now + word_of_int (gc_interval t)\<rparr>"
      using assms(1) by (auto simp: neigh_periodic_timer_def)
    then show ?thesis
      by (intro exI [of _ t]) simp
  qed
  then obtain t1 where t1: "neigh_at t1 = neigh_at t" "hash_buckets t1 = hash_buckets t"
    "hash_buckets t' = hash_buckets (neigh_periodic_buckets now bucket_indices t1)"
    by blast
  have rel: "sweep_rel t t1" using t1(1) by (simp add: sweep_rel_def)
  from assms(2) obtain i where i: "i \<in> set bucket_indices" "a \<in> set (hash_buckets t1 i)"
    using t1(2) by (auto simp: linked_iff)
  have "a \<notin> set (hash_buckets (neigh_periodic_buckets now bucket_indices t1) i)"
    using assms(3) i(1) t1(3) by (auto simp: linked_iff)
  with periodic_buckets_safe [OF refl rel, of now bucket_indices] i(2) show ?thesis by blast
qed

text \<open>
  Claim C6: an entry that was linked in the table and is no longer linked after
  \<open>neigh_forced_gc\<close> had a reference count of 1, was not \<open>PERMANENT\<close>, and was not an
  \<open>INCOMPLETE\<close> entry still inside \<open>used + retrans_time\<close>; an entry that is no longer
  linked after \<open>neigh_periodic_timer\<close> had a reference count of 1, was not
  \<open>PERMANENT\<close> and was not \<open>INCOMPLETE\<close> at all. So neither collector unlinks an entry
  somebody else holds, a permanent entry, or an \<open>INCOMPLETE\<close> entry within its grace
  window.
\<close>

theorem neigh_gc_safety:
  "(a \<in> set (linked t) \<and> a \<notin> set (linked (snd (neigh_forced_gc j t)))
      \<longrightarrow> refcnt (neigh_at t a) = 1 \<and> nud_state (neigh_at t a) AND NUD_PERMANENT = 0
          \<and> \<not> (nud_state (neigh_at t a) = NUD_INCOMPLETE
                \<and> \<not> time_after j (used (neigh_at t a)
                      + word_of_int (retrans_time (parms_at t (parms (neigh_at t a)))))))
   \<and> (neigh_periodic_timer HZ rnd now t = Some t'
        \<and> a \<in> set (linked t) \<and> a \<notin> set (linked t')
      \<longrightarrow> refcnt (neigh_at t a) = 1 \<and> nud_state (neigh_at t a) AND NUD_PERMANENT = 0
          \<and> nud_state (neigh_at t a) \<noteq> NUD_INCOMPLETE)"
  using forced_gc_safe [of a t j] periodic_safe [of HZ rnd now t t' a]
  unfolding forced_gc_may_discard_def periodic_may_discard_def
  by blast

theorem neigh_gc_safety_witness:
  "10 \<in> set (linked tbl_full) \<and> 10 \<notin> set (linked (snd (neigh_forced_gc 0 tbl_full)))
   \<and> refcnt (neigh_at tbl_full 10) = 1 \<and> nud_state (neigh_at tbl_full 10) AND NUD_PERMANENT = 0
   \<and> nud_state (neigh_at tbl_full 10) \<noteq> NUD_INCOMPLETE
   \<and> linked (snd (neigh_forced_gc 0 tbl_full)) = [11]
   \<and> neigh_periodic_timer 100 (\<lambda>k. 0) 100 tbl_full
        = Some ((neigh_periodic_buckets 100 bucket_indices tbl_full)\<lparr>gc_timer_expires := 130\<rparr>)
   \<and> linked ((neigh_periodic_buckets 100 bucket_indices tbl_full)\<lparr>gc_timer_expires := 130\<rparr>)
        = [11]"
  using neigh_gc_safety [of 10 tbl_full 0 100 "\<lambda>k. 0" 100
      "(neigh_periodic_buckets 100 bucket_indices tbl_full)\<lparr>gc_timer_expires := 130\<rparr>"]
  by (simp add: neigh_forced_gc_def neigh_periodic_timer_def linked_def bucket_indices_eval
      tbl_full_def tbl0_def neigh0_def parms0_def tbl_neigh_release_def neigh_release_def
      neigh_destroy_def neigh_del_timer_def neigh_destroy_tail_def skb_queue_purge_def
      nud_defs mask_defs Let_def time_after_def time_before_def)

subsection \<open>Creation\<close>

lemma neigh_release_key:
  "primary_key (fst (neigh_release n)) = primary_key n" "dev (fst (neigh_release n)) = dev n"
  using neigh_release_cases [of n] by auto


lemmas shrinks_def = shrinks_but_def [of "{}"]

lemma shrinks_refl: "shrinks_but A t t"
  by (simp add: shrinks_but_def)

lemma shrinks_trans: "shrinks_but A t t1 \<Longrightarrow> shrinks_but A t1 t2 \<Longrightarrow> shrinks_but A t t2"
  unfolding shrinks_but_def by (intro conjI allI) (simp_all, blast)

lemma shrinks_mono: "shrinks_but A t t1 \<Longrightarrow> A \<subseteq> B \<Longrightarrow> shrinks_but B t t1"
  unfolding shrinks_but_def by blast


lemma forced_gc_chain_shrinks:
  assumes "neigh_forced_gc_chain j as t = (ch, t', s)"
  shows "shrinks t t' \<and> hash_buckets t' = hash_buckets t
           \<and> set ch \<subseteq> set as \<and> (distinct as \<longrightarrow> distinct ch)"
  using assms
proof (induction as arbitrary: t ch t' s)
  case Nil
  then show ?case by (simp add: shrinks_refl)
next
  case (Cons a as)
  let ?n = "neigh_at t a"
  let ?c = "refcnt ?n = 1 \<and> nud_state ?n AND NUD_PERMANENT = 0
         \<and> (nud_state ?n \<noteq> NUD_INCOMPLETE
             \<or> time_after j (used ?n + word_of_int (retrans_time (parms_at t (parms ?n)))))"
  show ?case
  proof (cases ?c)
    case True
    let ?t1 = "tbl_neigh_release a (t\<lparr>neigh_at := (neigh_at t)(a := ?n\<lparr>dead := True\<rparr>)\<rparr>)"
    obtain ch1 t2 s1 where r: "neigh_forced_gc_chain j as ?t1 = (ch1, t2, s1)"
      by (cases "neigh_forced_gc_chain j as ?t1") auto
    have eq: "ch = ch1" "t' = t2"
      using Cons.prems(1) True r by (simp_all add: Let_def)
    have s1: "shrinks t ?t1"
      by (simp add: shrinks_def neigh_release_key tbl_neigh_release_def split_beta)
    from Cons.IH [OF r] have ih: "shrinks ?t1 t2" "hash_buckets t2 = hash_buckets ?t1"
      "set ch1 \<subseteq> set as" "distinct as \<longrightarrow> distinct ch1" by auto
    have "shrinks t t2" using s1 ih(1) by (rule shrinks_trans)
    then show ?thesis
      unfolding eq using ih(2,3,4) by auto
  next
    case False
    obtain ch1 t2 s1 where r: "neigh_forced_gc_chain j as t = (ch1, t2, s1)"
      by (cases "neigh_forced_gc_chain j as t") auto
    have eq: "ch = a # ch1" "t' = t2"
      using Cons.prems(1) False r by (auto simp: Let_def)
    from Cons.IH [OF r] show ?thesis
      unfolding eq by auto
  qed
qed

lemma forced_gc_buckets_shrinks:
  assumes "neigh_forced_gc_buckets j is t = (t', s)"
  shows "shrinks t t'"
  using assms
proof (induction "is" arbitrary: t t' s)
  case Nil
  then show ?case by (simp add: shrinks_refl)
next
  case (Cons i "is")
  obtain ch t1 s1 where c: "neigh_forced_gc_chain j (hash_buckets t i) t = (ch, t1, s1)"
    by (cases "neigh_forced_gc_chain j (hash_buckets t i) t") auto
  let ?t1 = "t1\<lparr>hash_buckets := (hash_buckets t1)(i := ch)\<rparr>"
  obtain t2 s2 where b: "neigh_forced_gc_buckets j is ?t1 = (t2, s2)"
    by (cases "neigh_forced_gc_buckets j is ?t1") auto
  have eq: "t' = t2" using Cons.prems(1) c b by simp
  from forced_gc_chain_shrinks [OF c]
  have ch: "shrinks t t1" "hash_buckets t1 = hash_buckets t"
    "set ch \<subseteq> set (hash_buckets t i)" "distinct (hash_buckets t i) \<longrightarrow> distinct ch"
    by auto
  have "shrinks t ?t1"
    using ch unfolding shrinks_but_def by auto
  with Cons.IH [OF b] show ?case
    unfolding eq by (blast intro: shrinks_trans)
qed

lemma forced_gc_shrinks: "shrinks t (snd (neigh_forced_gc j t))"
proof -
  obtain t1 s where b: "neigh_forced_gc_buckets j bucket_indices t = (t1, s)"
    by (cases "neigh_forced_gc_buckets j bucket_indices t") auto
  have "shrinks t1 (t1\<lparr>last_flush := j\<rparr>)" by (simp add: shrinks_def)
  with forced_gc_buckets_shrinks [OF b] show ?thesis
    by (simp add: neigh_forced_gc_def b) (blast intro: shrinks_trans)
qed


lemma neigh_hold_key [simp]:
  "primary_key (neigh_hold n) = primary_key n" "dev (neigh_hold n) = dev n"
  "refcnt (neigh_hold n) = refcnt n + 1"
  by (simp_all add: neigh_hold_def)






















subsection \<open>Allocation\<close>

lemma forced_gc_chain_none:
  "neigh_forced_gc_chain j as t = (ch, t', False) \<Longrightarrow> ch = as \<and> t' = t"
proof (induction as arbitrary: t ch t')
  case Nil
  then show ?case by simp
next
  case (Cons a as)
  obtain ch1 t2 s1 where r: "neigh_forced_gc_chain j as t = (ch1, t2, s1)"
    by (cases "neigh_forced_gc_chain j as t") auto
  from Cons.prems r have "ch = a # ch1 \<and> t' = t2 \<and> \<not> s1"
    by (auto simp: Let_def split: if_splits prod.splits)
  with Cons.IH [of t ch1 t2] r show ?case by simp
qed

lemma forced_gc_buckets_none:
  "neigh_forced_gc_buckets j is t = (t', False) \<Longrightarrow> t' = t"
proof (induction "is" arbitrary: t t')
  case Nil
  then show ?case by simp
next
  case (Cons i "is")
  obtain ch t1 s1 where c: "neigh_forced_gc_chain j (hash_buckets t i) t = (ch, t1, s1)"
    by (cases "neigh_forced_gc_chain j (hash_buckets t i) t") auto
  obtain t2 s2 where b: "neigh_forced_gc_buckets j is (t1\<lparr>hash_buckets := (hash_buckets t1)(i := ch)\<rparr>)
      = (t2, s2)"
    by (cases "neigh_forced_gc_buckets j is (t1\<lparr>hash_buckets := (hash_buckets t1)(i := ch)\<rparr>)")
      auto
  from Cons.prems c b have f: "\<not> s1" "\<not> s2" "t' = t2" by simp_all
  from forced_gc_chain_none [of j "hash_buckets t i" t ch t1] c f(1)
  have "ch = hash_buckets t i" "t1 = t" by simp_all
  then have "t1\<lparr>hash_buckets := (hash_buckets t1)(i := ch)\<rparr> = t" by simp
  with Cons.IH [of t t2] b f show ?case by simp
qed

lemma forced_gc_zero:
  "fst (neigh_forced_gc j t) = 0 \<Longrightarrow> snd (neigh_forced_gc j t) = t\<lparr>last_flush := j\<rparr>"
proof -
  assume z: "fst (neigh_forced_gc j t) = 0"
  obtain t1 s where b: "neigh_forced_gc_buckets j bucket_indices t = (t1, s)"
    by (cases "neigh_forced_gc_buckets j bucket_indices t") auto
  have "\<not> s" using z by (simp add: neigh_forced_gc_def b split: if_splits)
  then have "t1 = t" using forced_gc_buckets_none [of j bucket_indices t t1] b by simp
  then show ?thesis by (simp add: neigh_forced_gc_def b)
qed

lemma forced_gc_thresh3: "gc_thresh3 (snd (neigh_forced_gc j t)) = gc_thresh3 t"
  using forced_gc_shrinks [of t j] by (simp add: shrinks_but_def)

text \<open>
  Claim C9, as the code has it: when \<open>neigh_alloc\<close> triggers forced collection (the
  entry count is above \<open>gc_thresh3\<close>, or above \<open>gc_thresh2\<close> with the last flush more
  than five seconds ago), it fails, returning no entry, if the collection discarded
  nothing and the count is above \<open>gc_thresh3\<close>; if the collection discarded at least one
  entry, allocation goes on whatever the count, and returns what the slab allocator gives.
\<close>

theorem neigh_alloc_hard_limit:
  "gc_thresh3 t < entries t
     \<or> (gc_thresh2 t < entries t \<and> time_after j (last_flush t + word_of_int (5 * HZ)))
   \<longrightarrow> (fst (neigh_forced_gc j t) = 0 \<and> gc_thresh3 t < entries t
          \<longrightarrow> neigh_alloc HZ j slab t = (None, t\<lparr>last_flush := j\<rparr>))
       \<and> (fst (neigh_forced_gc j t) \<noteq> 0 \<longrightarrow> fst (neigh_alloc HZ j slab t) = slab)"
proof (intro impI conjI)
  assume g: "gc_thresh3 t < entries t
     \<or> (gc_thresh2 t < entries t \<and> time_after j (last_flush t + word_of_int (5 * HZ)))"
  {
    assume a: "fst (neigh_forced_gc j t) = 0 \<and> gc_thresh3 t < entries t"
    then have "snd (neigh_forced_gc j t) = t\<lparr>last_flush := j\<rparr>" by (simp add: forced_gc_zero)
    then show "neigh_alloc HZ j slab t = (None, t\<lparr>last_flush := j\<rparr>)"
      using g a by (simp add: neigh_alloc_def Let_def split_beta)
  }
  {
    assume "fst (neigh_forced_gc j t) \<noteq> 0"
    then show "fst (neigh_alloc HZ j slab t) = slab"
      using g by (cases slab) (simp_all add: neigh_alloc_def Let_def split_beta)
  }
qed

theorem neigh_alloc_hard_limit_witness:
  "gc_thresh3 tbl_full < entries tbl_full
   \<and> fst (neigh_forced_gc 0 (tbl_full\<lparr>hash_buckets := (\<lambda>i. [])(0 := [11])\<rparr>)) = 0
   \<and> neigh_alloc 100 0 (Some 12) (tbl_full\<lparr>hash_buckets := (\<lambda>i. [])(0 := [11])\<rparr>)
       = (None, tbl_full\<lparr>hash_buckets := (\<lambda>i. [])(0 := [11]), last_flush := 0\<rparr>)
   \<and> fst (neigh_forced_gc 0 tbl_full) \<noteq> 0
   \<and> fst (neigh_alloc 100 0 (Some 12) tbl_full) = Some 12"
  using neigh_alloc_hard_limit [of "tbl_full\<lparr>hash_buckets := (\<lambda>i. [])(0 := [11])\<rparr>" 0 100
      "Some 12"]
    neigh_alloc_hard_limit [of tbl_full 0 100 "Some 12"]
  by (simp add: neigh_forced_gc_def bucket_indices_eval tbl_full_def tbl0_def neigh0_def
      parms0_def tbl_neigh_release_def neigh_release_def neigh_destroy_def neigh_del_timer_def
      neigh_destroy_tail_def skb_queue_purge_def nud_defs mask_defs Let_def)

text \<open>
  Claim C9 as the spec states it fails: in a table with \<open>gc_thresh3 = 1\<close> and three
  entries, forced collection discards the one entry nobody holds; the count, now two, is
  still above the hard maximum, and \<open>neigh_alloc\<close> hands out a new entry all the same.
\<close>

theorem neigh_alloc_over_hard_limit:
  "gc_thresh3 tbl_full < entries tbl_full
   \<and> entries (snd (neigh_forced_gc 0 tbl_full)) = 2
   \<and> gc_thresh3 (snd (neigh_forced_gc 0 tbl_full)) < entries (snd (neigh_forced_gc 0 tbl_full))
   \<and> fst (neigh_alloc 100 0 (Some 12) tbl_full) = Some 12
   \<and> entries (snd (neigh_alloc 100 0 (Some 12) tbl_full)) = 3"
  by (simp add: neigh_alloc_def neigh_forced_gc_def bucket_indices_eval tbl_full_def tbl0_def
      neigh0_def parms0_def tbl_neigh_release_def neigh_release_def neigh_destroy_def
      neigh_del_timer_def neigh_destroy_tail_def skb_queue_purge_def nud_defs mask_defs Let_def)

subsection \<open>Proxy entries\<close>

lemma pneigh_lookup_returns_match:
  assumes r: "pneigh_lookup ld pc km t pkey d creat = (Some n, t')"
  shows "take (key_len t) (pn_key n) = take (key_len t) pkey \<and> (pn_dev n = d \<or> pn_dev n = None)"
proof (cases "find (pneigh_match (key_len t) pkey d)
                (phash_buckets t (pneigh_hash ld (key_len t) pkey))")
  case None
  with r show ?thesis
    by (auto simp: pneigh_lookup_def Let_def split: if_splits)
next
  case (Some m)
  then have "pneigh_match (key_len t) pkey d m" by (auto simp: find_Some_iff)
  moreover have "n = m" using r Some by (simp add: pneigh_lookup_def Let_def)
  ultimately show ?thesis by (simp add: pneigh_match_def)
qed

lemma pneigh_lookup_wildcard:
  assumes "e \<in> set (phash_buckets t (pneigh_hash ld (key_len t) pkey))"
    and "take (key_len t) (pn_key e) = take (key_len t) pkey" and "pn_dev e = None"
  shows "\<exists>m. pneigh_lookup ld pc km t pkey d creat = (Some m, t)
            \<and> m \<in> set (phash_buckets t (pneigh_hash ld (key_len t) pkey))
            \<and> take (key_len t) (pn_key m) = take (key_len t) pkey
            \<and> (pn_dev m = d \<or> pn_dev m = None)"
proof -
  let ?b = "phash_buckets t (pneigh_hash ld (key_len t) pkey)"
  have "pneigh_match (key_len t) pkey d e" using assms by (simp add: pneigh_match_def)
  with assms(1) have "find (pneigh_match (key_len t) pkey d) ?b \<noteq> None"
    by (auto simp: find_None_iff)
  then obtain m where m: "find (pneigh_match (key_len t) pkey d) ?b = Some m" by auto
  then have "m \<in> set ?b" "pneigh_match (key_len t) pkey d m"
    by (auto simp: find_Some_iff)
  then show ?thesis
    using m by (auto simp: pneigh_lookup_def Let_def pneigh_match_def)
qed

text \<open>
  Claim C10: the proxy entry \<open>pneigh_lookup\<close> returns has the key asked for (its first
  \<open>key_len\<close> bytes) and a device that is the one asked for or null; and when the chain
  of the key holds an entry with that key and a null device, a lookup for any device
  returns an entry of the chain that matches and leaves the table as it was, whatever the
  create flag.
\<close>

theorem pneigh_lookup_key_and_device:
  "(pneigh_lookup ld pc km t pkey d creat = (Some n, t')
      \<longrightarrow> take (key_len t) (pn_key n) = take (key_len t) pkey
          \<and> (pn_dev n = d \<or> pn_dev n = None))
   \<and> (e \<in> set (phash_buckets t (pneigh_hash ld (key_len t) pkey))
        \<and> take (key_len t) (pn_key e) = take (key_len t) pkey \<and> pn_dev e = None
      \<longrightarrow> (\<exists>m. pneigh_lookup ld pc km t pkey d creat = (Some m, t)
            \<and> m \<in> set (phash_buckets t (pneigh_hash ld (key_len t) pkey))
            \<and> take (key_len t) (pn_key m) = take (key_len t) pkey
            \<and> (pn_dev m = d \<or> pn_dev m = None)))"
  using pneigh_lookup_returns_match [of ld pc km t pkey d creat n t']
    pneigh_lookup_wildcard [of e t ld pkey pc km d creat]
  by blast

theorem pneigh_lookup_key_and_device_witness:
  "\<lparr>pn_dev = None, pn_key = [10, 0, 0, 1]\<rparr>
     \<in> set (phash_buckets tbl_proxy (pneigh_hash load_le32 (key_len tbl_proxy) [10, 0, 0, 1]))
   \<and> pneigh_lookup load_le32 None True tbl_proxy [10, 0, 0, 1] (Some 7) True
       = (Some \<lparr>pn_dev = None, pn_key = [10, 0, 0, 1]\<rparr>, tbl_proxy)
   \<and> take (key_len tbl_proxy) (pn_key \<lparr>pn_dev = None, pn_key = [10, 0, 0, 1]\<rparr>)
       = take (key_len tbl_proxy) [10, 0, 0, 1]"
  using pneigh_lookup_key_and_device [of load_le32 None True tbl_proxy "[10, 0, 0, 1]" "Some 7"
      True "\<lparr>pn_dev = None, pn_key = [10, 0, 0, 1]\<rparr>" tbl_proxy
      "\<lparr>pn_dev = None, pn_key = [10, 0, 0, 1]\<rparr>"]
  by (simp add: pneigh_lookup_def pneigh_hash_def pneigh_match_def tbl_proxy_def tbl0_def
      load_le32_def PNEIGH_HASHMASK_def Let_def)

end
